theory Spec2Isabelle
  imports Complex_Main "HOL-Library.Char_ord" "HOL-Library.List_Lexorder"
begin

section \<open>Data model\<close>

text \<open>
  The Python exceptions that the modelled operations can raise. \<open>NotConsolidated\<close> is the
  plain \<^verbatim>\<open>Exception("Must consolidate first")\<close> of \<^verbatim>\<open>DataSequence.extract\<close>.
\<close>

datatype py_error =
  IndexError | KeyError | TypeError | AttributeError | RecursionError | NotConsolidated

text \<open>
  Python floats, for the weights: a number (an \<^verbatim>\<open>int\<close> such as the default weight
  \<open>1\<close> compares as that number), the two infinities and NaN. No comparison with NaN
  holds. The two zeros compare equal and are one number here.
  \<^verbatim>\<open>min(x, y)\<close> returns \<open>y\<close> if \<^verbatim>\<open>y < x\<close> and \<open>x\<close> otherwise.
\<close>

datatype pyfloat = Float real | PosInf | NegInf | NaN

fun py_lt :: "pyfloat \<Rightarrow> pyfloat \<Rightarrow> bool" where
  "py_lt NaN y = False"
| "py_lt x NaN = False"
| "py_lt (Float a) (Float b) = (a < b)"
| "py_lt x NegInf = False"
| "py_lt NegInf y = True"
| "py_lt PosInf y = False"
| "py_lt (Float a) PosInf = True"

fun py_le :: "pyfloat \<Rightarrow> pyfloat \<Rightarrow> bool" where
  "py_le NaN y = False"
| "py_le x NaN = False"
| "py_le (Float a) (Float b) = (a \<le> b)"
| "py_le NegInf y = True"
| "py_le x PosInf = True"
| "py_le PosInf y = False"
| "py_le (Float a) NegInf = False"

definition py_min :: "pyfloat \<Rightarrow> pyfloat \<Rightarrow> pyfloat" where
  "py_min x y = (if py_lt y x then y else x)"

text \<open>
  The nested capture tree (\<^verbatim>\<open>structure: Dict[str, any]\<close>): strings, lists and
  dictionaries in insertion order.
\<close>

datatype pyval = PyStr string | PyList "pyval list" | PyDict "(string \<times> pyval) list"

text \<open>
  \<^verbatim>\<open>class Match\<close> of \<^verbatim>\<open>match.py\<close>. Python integers are unbounded, so \<open>size\<close> and
  \<open>start_idx\<close> are of type \<open>int\<close>. A dictionary that the code iterates over
  (\<^verbatim>\<open>extractions.items()\<close>) is the list of its items in insertion order. The fields
  \<open>value\<close>, \<open>size\<close>, \<open>id\<close> and \<open>structure\<close> carry the suffix \<open>_m\<close>, since the
  plain names are taken in Isabelle; values (of type \<^verbatim>\<open>any\<close> in the source) are the
  strings that the code under study stores there.
\<close>

record match =
  concept :: string
  value_m :: string
  size_m :: int
  start_idx :: int
  id_m :: string
  assumed :: bool
  depends_on_matches :: "string list"
  extractions :: "(string \<times> string list) list"
  structure_m :: "(string \<times> pyval) list"
  weight :: pyfloat

text \<open>
  \<^verbatim>\<open>class DataElement\<close> and \<^verbatim>\<open>class DataSequence\<close> of \<^verbatim>\<open>data_sequence.py\<close>. A
  dictionary that is only read by key and updated is a map.
\<close>

record data_element =
  value_e :: string
  matches :: "match list"
  disabled :: bool

record data_sequence =
  value_s :: string
  elements :: "data_element list"
  extractions_s :: "string \<rightharpoonup> string list"
  consolidated :: bool
  match_by_id :: "string \<rightharpoonup> match"

text \<open>
  \<^verbatim>\<open>Match(concept=..., value=..., size=..., start_idx=...)\<close> with the defaults of the
  other fields. The id comes from \<^verbatim>\<open>uuid.uuid4()\<close>; the model takes it as an argument.
\<close>

definition new_match :: "string \<Rightarrow> string \<Rightarrow> int \<Rightarrow> int \<Rightarrow> string \<Rightarrow> match" where
  "new_match c v sz st i =
     \<lparr>concept = c, value_m = v, size_m = sz, start_idx = st, id_m = i, assumed = False,
      depends_on_matches = [], extractions = [], structure_m = [], weight = Float 1\<rparr>"

text \<open>
  Python list indexing \<^verbatim>\<open>xs[i]\<close>: an index below zero counts from the end, an index
  outside \<open>[-len, len)\<close> raises IndexError (here \<open>None\<close>). The result is the position
  that is read.
\<close>

definition py_index :: "'a list \<Rightarrow> int \<Rightarrow> nat option" where
  "py_index xs i =
     (if 0 \<le> i \<and> i < int (length xs) then Some (nat i)
      else if i < 0 \<and> - int (length xs) \<le> i then Some (nat (int (length xs) + i))
      else None)"

text \<open>Python slicing \<^verbatim>\<open>xs[a:b]\<close>, where \<^verbatim>\<open>None\<close> stands for an omitted bound.\<close>

definition py_slice :: "'a list \<Rightarrow> int option \<Rightarrow> int option \<Rightarrow> 'a list" where
  "py_slice xs a b =
     (let n = int (length xs);
          bound = (\<lambda>i. if i < 0 then max 0 (i + n) else min i n);
          lo = (case a of None \<Rightarrow> 0 | Some i \<Rightarrow> bound i);
          hi = (case b of None \<Rightarrow> n | Some i \<Rightarrow> bound i)
      in take (nat (hi - lo)) (drop (nat lo) xs))"

section \<open>Adding a match\<close>

text \<open>\<^verbatim>\<open>DataSequence.get_all_match_ids\<close>: the ids of the matches stored at the positions.\<close>

definition get_all_match_ids :: "data_sequence \<Rightarrow> string set" where
  "get_all_match_ids s =
     foldl (\<lambda>match_ids elem. foldl (\<lambda>ids m. insert (id_m m) ids) match_ids (matches elem))
       {} (elements s)"

text \<open>\<^verbatim>\<open>Match.dependencies_present\<close>.\<close>

definition dependencies_present :: "match \<Rightarrow> data_sequence \<Rightarrow> bool" where
  "dependencies_present m s = (set (depends_on_matches m) - get_all_match_ids s = {})"

text \<open>\<^verbatim>\<open>DataElement.contains_match\<close>, as a loop over the saved matches.\<close>

fun contains_match :: "match list \<Rightarrow> match \<Rightarrow> bool" where
  "contains_match [] m = False"
| "contains_match (saved # rest) m =
     (if concept saved \<noteq> concept m then contains_match rest m
      else if size_m saved \<noteq> size_m m then contains_match rest m
      else if start_idx saved \<noteq> start_idx m then contains_match rest m
      else if concept m \<in> {''Sentence'', ''MakesSense''}
              \<and> depends_on_matches saved \<noteq> depends_on_matches m then contains_match rest m
      else True)"

text \<open>\<^verbatim>\<open>DataElement.add_match\<close>: the flag and the element after the call.\<close>

definition add_match_e :: "data_element \<Rightarrow> match \<Rightarrow> bool \<times> data_element" where
  "add_match_e e m =
     (if \<not> contains_match (matches e) m then (True, e\<lparr>matches := matches e @ [m]\<rparr>)
      else (False, e))"

text \<open>
  \<^verbatim>\<open>DataSequence.add_match\<close>. The loop runs over \<^verbatim>\<open>range(match.size)\<close>; an IndexError
  of \<^verbatim>\<open>self.elements[match.start_idx + idx]\<close> leaves the loop with the state reached so
  far. The result is what the call returns or raises, and the state after it.
\<close>

fun add_match_loop :: "match \<Rightarrow> nat list \<Rightarrow> data_sequence \<Rightarrow> bool \<Rightarrow> (py_error + bool) \<times> data_sequence" where
  "add_match_loop m [] s added_new_match = (Inr added_new_match, s)"
| "add_match_loop m (idx # idxs) s added_new_match =
     (case py_index (elements s) (start_idx m + int idx) of
        None \<Rightarrow> (Inl IndexError, s)
      | Some i \<Rightarrow>
          (case add_match_e (elements s ! i) m of
             (added, e') \<Rightarrow>
               add_match_loop m idxs
                 (s\<lparr>elements := (elements s)[i := e'],
                    match_by_id := (if added then (match_by_id s)(id_m m \<mapsto> m) else match_by_id s)\<rparr>)
                 (added_new_match \<or> added)))"

definition add_match :: "match \<Rightarrow> data_sequence \<Rightarrow> (py_error + bool) \<times> data_sequence" where
  "add_match m s =
     (if \<not> dependencies_present m s then (Inr False, s)
      else add_match_loop m [0..<nat (size_m m)] (s\<lparr>consolidated := False\<rparr>) False)"

text \<open>
  \<^verbatim>\<open>DataSequence.__post_init__\<close> and \<^verbatim>\<open>DataSequence.from_string\<close>. The ids of the
  character matches come from \<^verbatim>\<open>uuid.uuid4()\<close>: position \<open>i\<close> gets \<open>fresh i\<close>. A
  character of the text is a string of length one.
\<close>

definition post_init :: "data_sequence \<Rightarrow> data_sequence" where
  "post_init s =
     s\<lparr>match_by_id :=
          foldl (\<lambda>reg ele. foldl (\<lambda>r m. r(id_m m \<mapsto> m)) reg (matches ele))
            (match_by_id s) (elements s)\<rparr>"

definition from_string :: "string \<Rightarrow> (nat \<Rightarrow> string) \<Rightarrow> data_sequence" where
  "from_string text fresh =
     post_init
       \<lparr>value_s = text,
        elements = map (\<lambda>(i, ch). \<lparr>value_e = [ch],
                                   matches = [new_match ''Character'' [ch] 1 (int i) (fresh i)],
                                   disabled = False\<rparr>) (enumerate 0 text),
        extractions_s = Map.empty, consolidated = False, match_by_id = Map.empty\<rparr>"

section \<open>Revoking a match\<close>

text \<open>
  \<^verbatim>\<open>DataSequence.revoke_match\<close>, the scan of one position: a match that depends on
  \<open>match_id\<close> has its id appended to \<open>to_revoke\<close>; otherwise (\<^verbatim>\<open>elif\<close>) a match with this
  id is appended to \<open>to_remove\<close>.
\<close>

fun revoke_scan :: "string \<Rightarrow> match list \<Rightarrow> string list \<Rightarrow> match list \<Rightarrow> string list \<times> match list" where
  "revoke_scan match_id [] to_revoke to_remove = (to_revoke, to_remove)"
| "revoke_scan match_id (m # ms) to_revoke to_remove =
     (if match_id \<in> set (depends_on_matches m)
      then revoke_scan match_id ms (to_revoke @ [id_m m]) to_remove
      else if match_id = id_m m
      then revoke_scan match_id ms to_revoke (to_remove @ [m])
      else revoke_scan match_id ms to_revoke to_remove)"

text \<open>
  The interpreter's stack is a parameter of the model. \<open>frames\<close> is the number of
  frames that the interpreter can still create: a call needs one, and raises
  RecursionError when none is left. \<open>eq_frames\<close> is the number of frames that a
  comparison \<^verbatim>\<open>==\<close> of two matches needs (the \<^verbatim>\<open>__eq__\<close> of the dataclass is a Python
  function). The tests of the scan are comparisons of strings; the model takes them to
  fit into the frame of the call.

  The removal loop of one position: \<^verbatim>\<open>self.match_by_id.pop(match.id, None)\<close> and then
  \<^verbatim>\<open>node.matches.remove(match)\<close>, which deletes the first equal element. \<open>remove\<close>
  compares the match with the elements before it (an element that is the match itself
  is found by identity); when there is such an element and the stack does not suffice
  for the comparison, RecursionError is raised after the key has been popped. Every
  match of \<open>to_remove\<close> was read from the list, so \<open>remove\<close> always finds it.
\<close>

fun revoke_remove :: "nat \<Rightarrow> nat \<Rightarrow> match list \<Rightarrow> (string \<rightharpoonup> match) \<Rightarrow> match list
    \<Rightarrow> (py_error + unit) \<times> (string \<rightharpoonup> match) \<times> match list" where
  "revoke_remove frames eq_frames [] reg ms = (Inr (), reg, ms)"
| "revoke_remove frames eq_frames (m # to_remove) reg ms =
     (if (case ms of [] \<Rightarrow> False | first # others \<Rightarrow> first = m) \<or> eq_frames \<le> frames
      then revoke_remove frames eq_frames to_remove (reg(id_m m := None)) (remove1 m ms)
      else (Inl RecursionError, reg(id_m m := None), ms))"

text \<open>
  The loop over the positions. When a removal raises, the positions before are done,
  the current one is left as the failing removal found it, and the positions after it
  are untouched.
\<close>

fun revoke_nodes :: "nat \<Rightarrow> nat \<Rightarrow> string \<Rightarrow> data_element list \<Rightarrow> string list \<Rightarrow> (string \<rightharpoonup> match)
    \<Rightarrow> (py_error + string list) \<times> data_element list \<times> (string \<rightharpoonup> match)" where
  "revoke_nodes frames eq_frames match_id [] to_revoke reg = (Inr to_revoke, [], reg)"
| "revoke_nodes frames eq_frames match_id (node # nodes) to_revoke reg =
     (case revoke_scan match_id (matches node) to_revoke [] of
        (to_revoke', to_remove) \<Rightarrow>
          (case revoke_remove frames eq_frames to_remove reg (matches node) of
             (Inl err, reg', ms') \<Rightarrow> (Inl err, node\<lparr>matches := ms'\<rparr> # nodes, reg')
           | (Inr u, reg', ms') \<Rightarrow>
               (case revoke_nodes frames eq_frames match_id nodes to_revoke' reg' of
                  (res, nodes', reg'') \<Rightarrow> (res, node\<lparr>matches := ms'\<rparr> # nodes', reg''))))"

text \<open>
  The body of \<open>revoke_match\<close> before the cascade, with \<open>frames\<close> frames left inside
  the call: the list \<open>to_revoke\<close> (or the error) and the state after the loop over the
  positions.
\<close>

definition revoke_step :: "nat \<Rightarrow> nat \<Rightarrow> string \<Rightarrow> data_sequence \<Rightarrow> (py_error + string list) \<times> data_sequence" where
  "revoke_step frames eq_frames match_id s =
     (case revoke_nodes frames eq_frames match_id (elements s) [] (match_by_id s) of
        (res, nodes', reg') \<Rightarrow>
          (res, s\<lparr>consolidated := False, elements := nodes', match_by_id := reg'\<rparr>))"

text \<open>
  \<open>revoke_match\<close> and its cascade
  \<^verbatim>\<open>for match_id in to_revoke: self.revoke_match(match_id)\<close>, where \<open>cascade\<close> has its
  default \<^verbatim>\<open>True\<close>. An error ends every loop on the way up; the state is the one
  reached so far.
\<close>

fun revoke_match :: "nat \<Rightarrow> nat \<Rightarrow> string \<Rightarrow> bool \<Rightarrow> data_sequence \<Rightarrow> (py_error + unit) \<times> data_sequence"
  and revoke_all :: "nat \<Rightarrow> nat \<Rightarrow> string list \<Rightarrow> data_sequence \<Rightarrow> (py_error + unit) \<times> data_sequence" where
  "revoke_match 0 eq_frames match_id cascade s = (Inl RecursionError, s)"
| "revoke_match (Suc frames) eq_frames match_id cascade s =
     (case revoke_step frames eq_frames match_id s of
        (Inl err, s') \<Rightarrow> (Inl err, s')
      | (Inr to_revoke, s') \<Rightarrow>
          if cascade then revoke_all frames eq_frames to_revoke s' else (Inr (), s'))"
| "revoke_all frames eq_frames [] s = (Inr (), s)"
| "revoke_all frames eq_frames (match_id # rest) s =
     (case revoke_match frames eq_frames match_id True s of
        (Inl err, s') \<Rightarrow> (Inl err, s')
      | (Inr u, s') \<Rightarrow> revoke_all frames eq_frames rest s')"

section \<open>Consolidation and extraction\<close>

text \<open>
  \<^verbatim>\<open>DataSequence.consolidate\<close>, first loop: every match of every position, in
  position order, is kept when its id has not been seen before.
\<close>

fun collect_matches :: "match list \<Rightarrow> match list \<Rightarrow> string set \<Rightarrow> match list \<times> string set" where
  "collect_matches [] acc match_ids = (acc, match_ids)"
| "collect_matches (m # ms) acc match_ids =
     (if id_m m \<notin> match_ids
      then collect_matches ms (acc @ [m]) (insert (id_m m) match_ids)
      else collect_matches ms acc match_ids)"

fun collect_elements :: "data_element list \<Rightarrow> match list \<Rightarrow> string set \<Rightarrow> match list \<times> string set" where
  "collect_elements [] acc match_ids = (acc, match_ids)"
| "collect_elements (node # nodes) acc match_ids =
     (case collect_matches (matches node) acc match_ids of
        (acc', match_ids') \<Rightarrow> collect_elements nodes acc' match_ids')"

text \<open>
  Second loop: \<^verbatim>\<open>self.extractions[pattern_node_id].extend(values)\<close> on a
  \<^verbatim>\<open>defaultdict(list)\<close>: a missing key starts from the empty list. \<open>get_list\<close> is
  that read, and also \<^verbatim>\<open>dict.get(key, [])\<close>.
\<close>

definition get_list :: "(string \<rightharpoonup> string list) \<Rightarrow> string \<Rightarrow> string list" where
  "get_list ex k = (case ex k of None \<Rightarrow> [] | Some vs \<Rightarrow> vs)"

definition extend_key :: "(string \<rightharpoonup> string list) \<Rightarrow> string \<times> string list \<Rightarrow> (string \<rightharpoonup> string list)" where
  "extend_key ex kv = ex(fst kv \<mapsto> get_list ex (fst kv) @ snd kv)"

definition merge_match :: "(string \<rightharpoonup> string list) \<Rightarrow> match \<Rightarrow> (string \<rightharpoonup> string list)" where
  "merge_match ex m = foldl extend_key ex (extractions m)"

definition consolidate :: "data_sequence \<Rightarrow> data_sequence" where
  "consolidate s =
     (if consolidated s then s
      else (case collect_elements (elements s) [] {} of
              (ms, match_ids) \<Rightarrow>
                s\<lparr>extractions_s := foldl merge_match Map.empty ms, consolidated := True\<rparr>))"

text \<open>\<^verbatim>\<open>DataSequence.extract\<close>: raises while stale, else \<^verbatim>\<open>dict.get(key, [])\<close>.\<close>

definition extract_s :: "data_sequence \<Rightarrow> string \<Rightarrow> py_error + string list" where
  "extract_s s pattern_node_id =
     (if \<not> consolidated s then Inl NotConsolidated
      else Inr (get_list (extractions_s s) pattern_node_id))"


definition all_matches :: "data_sequence \<Rightarrow> match list" where
  "all_matches s = concat (map matches (elements s))"


section \<open>Dependants and dropping\<close>

text \<open>
  \<^verbatim>\<open>DataSequence.find_dependant_matches\<close>. Python orders strings by code point, which
  is the lexicographic order of their characters; \<^verbatim>\<open>sorted(list(set(result)))\<close> is
  independent of the iteration order of the set.
\<close>

definition find_dependant_matches :: "data_sequence \<Rightarrow> string \<Rightarrow> string list" where
  "find_dependant_matches s match_id =
     sort (remdups (concat (map (\<lambda>element.
        map id_m (filter (\<lambda>m. match_id \<in> set (depends_on_matches m)) (matches element)))
        (elements s))))"

text \<open>
  \<^verbatim>\<open>DataSequence.get_dependant_matches\<close>. At the first match that depends on
  \<open>match_id\<close> the code runs \<^verbatim>\<open>deps.add(match.id)\<close> and then evaluates
  \<^verbatim>\<open>match_id.id\<close>; \<open>match_id\<close> is a string (\<^verbatim>\<open>get_match_importance(self, match_id: str)\<close>
  passes it on), which has no attribute \<open>id\<close>, so AttributeError is raised before the
  recursive call is made.
\<close>

fun get_dependant_scan :: "string \<Rightarrow> match list \<Rightarrow> string set \<Rightarrow> py_error + string set" where
  "get_dependant_scan match_id [] deps = Inr deps"
| "get_dependant_scan match_id (m # ms) deps =
     (if match_id \<in> set (depends_on_matches m) then Inl AttributeError
      else get_dependant_scan match_id ms deps)"

fun get_dependant_nodes :: "string \<Rightarrow> data_element list \<Rightarrow> string set \<Rightarrow> py_error + string set" where
  "get_dependant_nodes match_id [] deps = Inr deps"
| "get_dependant_nodes match_id (elem # elems) deps =
     (case get_dependant_scan match_id (matches elem) deps of
        Inl e \<Rightarrow> Inl e
      | Inr deps' \<Rightarrow> get_dependant_nodes match_id elems deps')"

definition get_dependant_matches :: "data_sequence \<Rightarrow> string \<Rightarrow> py_error + string set" where
  "get_dependant_matches s match_id = get_dependant_nodes match_id (elements s) {}"

text \<open>
  The concept hierarchy is an external collaborator; the code under study only calls
  \<^verbatim>\<open>get_parents\<close> (all ancestors of a concept) and \<^verbatim>\<open>get_children\<close>.
\<close>

record hierarchy_provider =
  get_parents :: "string \<Rightarrow> string list"
  get_children :: "string \<Rightarrow> string list"

text \<open>
  \<^verbatim>\<open>DataSequence.drop_matches\<close>. \<open>matches_to_remove\<close> is a Python set: the model keeps
  its elements in the order of their first insertion.
\<close>

definition set_add :: "string \<Rightarrow> string list \<Rightarrow> string list" where
  "set_add x xs = (if x \<in> set xs then xs else xs @ [x])"

fun drop_scan :: "string list \<Rightarrow> hierarchy_provider option \<Rightarrow> nat \<Rightarrow> match list \<Rightarrow> string list \<Rightarrow> string list" where
  "drop_scan concepts h idx [] matches_to_remove = matches_to_remove"
| "drop_scan concepts h idx (m # ms) matches_to_remove =
     (if start_idx m \<noteq> int idx then drop_scan concepts h idx ms matches_to_remove
      else if concept m \<in> set concepts
      then drop_scan concepts h idx ms (set_add (id_m m) matches_to_remove)
      else (case h of
              None \<Rightarrow> drop_scan concepts h idx ms matches_to_remove
            | Some hierarchy \<Rightarrow>
                if set (get_parents hierarchy (concept m)) \<inter> set concepts \<noteq> {}
                then drop_scan concepts h idx ms (set_add (id_m m) matches_to_remove)
                else drop_scan concepts h idx ms matches_to_remove))"

fun drop_collect :: "string list \<Rightarrow> hierarchy_provider option \<Rightarrow> (nat \<times> data_element) list \<Rightarrow> string list \<Rightarrow> string list" where
  "drop_collect concepts h [] matches_to_remove = matches_to_remove"
| "drop_collect concepts h ((idx, elem) # rest) matches_to_remove =
     drop_collect concepts h rest (drop_scan concepts h idx (matches elem) matches_to_remove)"

text \<open>
  The second loop of \<open>drop_matches\<close>. The code passes the constant
  \<^verbatim>\<open>cascade=False\<close> to \<open>revoke_match\<close>, whatever the caller's \<open>cascade\<close> is.
  \<open>frames\<close> is the number of frames left for these calls.
\<close>

fun revoke_each :: "nat \<Rightarrow> nat \<Rightarrow> string list \<Rightarrow> data_sequence \<Rightarrow> (py_error + unit) \<times> data_sequence" where
  "revoke_each frames eq_frames [] s = (Inr (), s)"
| "revoke_each frames eq_frames (match_id # rest) s =
     (case revoke_match frames eq_frames match_id False s of
        (Inl err, s') \<Rightarrow> (Inl err, s')
      | (Inr u, s') \<Rightarrow> revoke_each frames eq_frames rest s')"

definition drop_matches :: "nat \<Rightarrow> nat \<Rightarrow> string list \<Rightarrow> hierarchy_provider option \<Rightarrow> bool \<Rightarrow> data_sequence
    \<Rightarrow> (py_error + unit) \<times> data_sequence" where
  "drop_matches frames eq_frames concepts h cascade s =
     revoke_each frames eq_frames (drop_collect concepts h (enumerate 0 (elements s)) []) s"

section \<open>Derivation states\<close>

text \<open>\<^verbatim>\<open>class MatchAssumption\<close> and \<^verbatim>\<open>class MatchState\<close> of \<^verbatim>\<open>match.py\<close>.\<close>

record match_assumption =
  sequence_start_idx_a :: int
  sequence_end_idx_a :: int
  assumed_concept :: string
  weight_a :: pyfloat

record match_state =
  sequence_idx :: int
  pattern_idx :: int
  sequence_start_idx :: "int option"
  sequence_end_idx :: "int option"
  many_optional :: bool
  extractions_st :: "(string \<times> string list) list"
  assumptions :: "match_assumption list"
  depends_on_matches_st :: "string list"
  structure_st :: "(string \<times> pyval) list"

text \<open>
  \<^verbatim>\<open>MatchState.get_matches\<close>, first loop: \<^verbatim>\<open>seq.match_by_id[match_id]\<close> raises
  KeyError for an id that the registry does not have, and
  \<^verbatim>\<open>weight = min(weight, match.weight)\<close> otherwise.
\<close>

fun min_weight :: "(string \<rightharpoonup> match) \<Rightarrow> string list \<Rightarrow> pyfloat \<Rightarrow> py_error + pyfloat" where
  "min_weight reg [] w = Inr w"
| "min_weight reg (match_id # rest) w =
     (case reg match_id of
        None \<Rightarrow> Inl KeyError
      | Some m \<Rightarrow> min_weight reg rest (py_min w (weight m)))"

text \<open>
  The rest of \<open>get_matches\<close>. The bounds of the state are \<^verbatim>\<open>None\<close> until they are
  set; the subtraction \<^verbatim>\<open>self.sequence_end_idx - self.sequence_start_idx\<close> then raises
  TypeError. The new ids come from \<^verbatim>\<open>uuid.uuid4()\<close>: the main match gets \<open>fresh 0\<close>,
  the \<open>i\<close>-th assumption \<open>fresh (Suc i)\<close>.
\<close>

definition get_matches :: "match_state \<Rightarrow> data_sequence \<Rightarrow> string \<Rightarrow> pyfloat \<Rightarrow> (nat \<Rightarrow> string) \<Rightarrow> py_error + match list" where
  "get_matches st s c w fresh =
     (case min_weight (match_by_id s) (depends_on_matches_st st) w of
        Inl e \<Rightarrow> Inl e
      | Inr w' \<Rightarrow>
          (case (sequence_start_idx st, sequence_end_idx st) of
             (Some a, Some b) \<Rightarrow>
               Inr (\<lparr>concept = c, value_m = py_slice (value_s s) (Some a) (Some b),
                     size_m = b - a, start_idx = a, id_m = fresh 0, assumed = False,
                     depends_on_matches = depends_on_matches_st st,
                     extractions = extractions_st st,
                     structure_m = (if structure_st st \<noteq> []
                                    then [(''concept'', PyStr c), (''data'', PyDict (structure_st st))]
                                    else []),
                     weight = w'\<rparr>
                    # map (\<lambda>(i, asmp).
                        \<lparr>concept = assumed_concept asmp,
                         value_m = py_slice (value_s s) (Some (sequence_start_idx_a asmp))
                                     (Some (sequence_end_idx_a asmp)),
                         size_m = sequence_end_idx_a asmp - sequence_start_idx_a asmp,
                         start_idx = sequence_start_idx_a asmp, id_m = fresh (Suc i),
                         assumed = True, depends_on_matches = [fresh 0], extractions = [],
                         structure_m = [], weight = weight_a asmp\<rparr>)
                      (enumerate 0 (assumptions st)))
           | _ \<Rightarrow> Inl TypeError))"

section \<open>The extraction pass\<close>

text \<open>
  \<^verbatim>\<open>Pattern\<close> is an external collaborator: its optional \<open>inside\<close> concept and its
  \<open>match\<close> method, a function of the sequence, the derivation state and the hierarchy.
\<close>

record pattern =
  inside :: "string option"
  match_p :: "data_sequence \<Rightarrow> match_state \<Rightarrow> hierarchy_provider \<Rightarrow> match list"

record extractor =
  patterns :: "pattern list"
  hierarchy :: hierarchy_provider
  single_concepts :: "string list"

text \<open>
  The truth value of \<^verbatim>\<open>pattern.inside\<close> in \<^verbatim>\<open>if pattern.inside and ...\<close>: \<^verbatim>\<open>None\<close>
  and the empty string are false.
\<close>

fun truthy :: "string option \<Rightarrow> bool" where
  "truthy None = False"
| "truthy (Some c) = (c \<noteq> [])"

definition get_element :: "data_sequence \<Rightarrow> int \<Rightarrow> py_error + data_element" where
  "get_element s i =
     (case py_index (elements s) i of None \<Rightarrow> Inl IndexError | Some j \<Rightarrow> Inr (elements s ! j))"

text \<open>\<^verbatim>\<open>Extractor.check_inside_start_idx\<close> and \<^verbatim>\<open>Extractor.check_match_is_inside\<close>.\<close>

definition check_inside_start_idx :: "extractor \<Rightarrow> data_sequence \<Rightarrow> int \<Rightarrow> string \<Rightarrow> py_error + bool" where
  "check_inside_start_idx ex s idx inside_concept =
     (case get_element s idx of
        Inl e \<Rightarrow> Inl e
      | Inr elem \<Rightarrow>
          Inr (\<exists>m \<in> set (matches elem).
                 inside_concept = concept m
                 \<or> inside_concept \<in> set (get_parents (hierarchy ex) (concept m))))"

definition check_match_is_inside :: "extractor \<Rightarrow> data_sequence \<Rightarrow> match \<Rightarrow> string \<Rightarrow> py_error + bool" where
  "check_match_is_inside ex s m inside_concept =
     (case get_element s (start_idx m) of
        Inl e \<Rightarrow> Inl e
      | Inr elem \<Rightarrow>
          Inr (\<exists>other \<in> set (matches elem).
                 (inside_concept = concept other
                  \<or> inside_concept \<in> set (get_parents (hierarchy ex) (concept other)))
                 \<and> start_idx other = start_idx m \<and> size_m other = size_m m))"

text \<open>
  \<^verbatim>\<open>Extractor.apply_once\<close>. Besides the result and the state, the model returns a
  trace: one event for each call of \<^verbatim>\<open>pattern.match\<close> (with the position) and one
  for each call of \<^verbatim>\<open>seq.add_match\<close> (with the match), together with the state of
  the sequence at the call. The guard \<^verbatim>\<open>if pattern.inside and not check(...): continue\<close>
  is the case distinction on "no inside concept, or the check holds".
\<close>

datatype event = Invoked data_sequence nat pattern | Submitted data_sequence match pattern

definition MatchState :: "int \<Rightarrow> match_state" where
  "MatchState i =
     \<lparr>sequence_idx = i, pattern_idx = 0, sequence_start_idx = None, sequence_end_idx = None,
      many_optional = False, extractions_st = [], assumptions = [],
      depends_on_matches_st = [], structure_st = []\<rparr>"

fun submit_matches :: "extractor \<Rightarrow> pattern \<Rightarrow> match list \<Rightarrow> data_sequence \<Rightarrow> bool \<Rightarrow> event list
    \<Rightarrow> (py_error + bool) \<times> data_sequence \<times> event list" where
  "submit_matches ex p [] s had_new_matches tr = (Inr had_new_matches, s, tr)"
| "submit_matches ex p (m # ms) s had_new_matches tr =
     (case (if truthy (inside p) then check_match_is_inside ex s m (the (inside p))
            else Inr True) of
        Inl e \<Rightarrow> (Inl e, s, tr)
      | Inr False \<Rightarrow> submit_matches ex p ms s had_new_matches tr
      | Inr True \<Rightarrow>
          (case add_match m s of
             (Inl e, s') \<Rightarrow> (Inl e, s', tr @ [Submitted s m p])
           | (Inr added, s') \<Rightarrow>
               submit_matches ex p ms s' (had_new_matches \<or> added) (tr @ [Submitted s m p])))"

fun apply_patterns :: "extractor \<Rightarrow> nat \<Rightarrow> pattern list \<Rightarrow> data_sequence \<Rightarrow> bool \<Rightarrow> event list
    \<Rightarrow> (py_error + bool) \<times> data_sequence \<times> event list" where
  "apply_patterns ex start [] s had_new_matches tr = (Inr had_new_matches, s, tr)"
| "apply_patterns ex start (p # ps) s had_new_matches tr =
     (case (if truthy (inside p) then check_inside_start_idx ex s (int start) (the (inside p))
            else Inr True) of
        Inl e \<Rightarrow> (Inl e, s, tr)
      | Inr False \<Rightarrow> apply_patterns ex start ps s had_new_matches tr
      | Inr True \<Rightarrow>
          (case submit_matches ex p (match_p p s (MatchState (int start)) (hierarchy ex)) s
                  had_new_matches (tr @ [Invoked s start p]) of
             (Inl e, s', tr') \<Rightarrow> (Inl e, s', tr')
           | (Inr had_new_matches', s', tr') \<Rightarrow> apply_patterns ex start ps s' had_new_matches' tr'))"

fun apply_positions :: "extractor \<Rightarrow> nat list \<Rightarrow> data_sequence \<Rightarrow> bool \<Rightarrow> event list
    \<Rightarrow> (py_error + bool) \<times> data_sequence \<times> event list" where
  "apply_positions ex [] s had_new_matches tr = (Inr had_new_matches, s, tr)"
| "apply_positions ex (start # rest) s had_new_matches tr =
     (case get_element s (int start) of
        Inl e \<Rightarrow> (Inl e, s, tr)
      | Inr elem \<Rightarrow>
          if disabled elem then apply_positions ex rest s had_new_matches tr
          else (case apply_patterns ex start (patterns ex) s had_new_matches tr of
                  (Inl e, s', tr') \<Rightarrow> (Inl e, s', tr')
                | (Inr had_new_matches', s', tr') \<Rightarrow> apply_positions ex rest s' had_new_matches' tr'))"

definition apply_once :: "extractor \<Rightarrow> data_sequence \<Rightarrow> (py_error + bool) \<times> data_sequence \<times> event list" where
  "apply_once ex s = apply_positions ex [0..<length (elements s)] s False []"

section \<open>Equivalence of matches\<close>

text \<open>
  The equivalence test in the words of the specification: same concept, same size, same
  start index and, for the concepts \<open>Sentence\<close> and \<open>MakesSense\<close>, the same
  dependency list.
\<close>

definition equivalent :: "match \<Rightarrow> match \<Rightarrow> bool" where
  "equivalent saved m \<longleftrightarrow>
     concept saved = concept m \<and> size_m saved = size_m m \<and> start_idx saved = start_idx m
     \<and> (concept m \<in> {''Sentence'', ''MakesSense''}
          \<longrightarrow> depends_on_matches saved = depends_on_matches m)"

section \<open>Notions for revocation\<close>

text \<open>
  The two branches of the scan of \<open>revoke_match\<close>: a match is a dependant of
  \<open>match_id\<close> when its dependency list contains the id; it is removable when it is not
  a dependant and has the id.
\<close>

definition dependant :: "string \<Rightarrow> match \<Rightarrow> bool" where
  "dependant match_id m \<longleftrightarrow> match_id \<in> set (depends_on_matches m)"

definition removable :: "string \<Rightarrow> match \<Rightarrow> bool" where
  "removable match_id m \<longleftrightarrow> match_id \<notin> set (depends_on_matches m) \<and> match_id = id_m m"

text \<open>No stored match lists its own id among its dependencies.\<close>

definition no_self_dependency :: "data_sequence \<Rightarrow> bool" where
  "no_self_dependency s \<longleftrightarrow> (\<forall>m \<in> set (all_matches s). id_m m \<notin> set (depends_on_matches m))"

text \<open>
  The sequence without the matches whose id is in \<open>K\<close>: they are deleted from every
  position, and the registry loses the keys of \<open>K\<close> that were stored at a position.
\<close>

definition without_ids :: "string set \<Rightarrow> data_sequence \<Rightarrow> data_sequence" where
  "without_ids K s =
     s\<lparr>elements := map (\<lambda>node. node\<lparr>matches := filter (\<lambda>m. id_m m \<notin> K) (matches node)\<rparr>)
                      (elements s),
       match_by_id := (\<lambda>k. if k \<in> K \<and> k \<in> get_all_match_ids s then None else match_by_id s k)\<rparr>"

text \<open>
  The ids that a dependency chain of stored matches connects to an id of \<open>I\<close>: the
  ids of \<open>I\<close>, and the id of every stored match that depends on such an id.
\<close>

inductive_set cascade_ids :: "data_sequence \<Rightarrow> string set \<Rightarrow> string set"
  for s :: data_sequence and I :: "string set" where
  base: "x \<in> I \<Longrightarrow> x \<in> cascade_ids s I"
| step: "z \<in> cascade_ids s I \<Longrightarrow> m \<in> set (all_matches s) \<Longrightarrow> z \<in> set (depends_on_matches m)
          \<Longrightarrow> id_m m \<in> cascade_ids s I"

text \<open>
  The sequences that \<open>from_string\<close> builds and calls of \<open>add_match\<close> and
  \<open>revoke_match\<close> evolve. A call that raises counts with the state it leaves behind.
\<close>

inductive reachable :: "data_sequence \<Rightarrow> bool" where
  init: "reachable (from_string text fresh)"
| add: "reachable s \<Longrightarrow> add_match m s = (r, s') \<Longrightarrow> reachable s'"
| revoke: "reachable s \<Longrightarrow> revoke_match frames eq_frames match_id cascade s = (r, s')
          \<Longrightarrow> reachable s'"

text \<open>
  A work list of ids is settled when each of its ids is stored at some position or has
  no dependant in the sequence.
\<close>

definition settled :: "data_sequence \<Rightarrow> string list \<Rightarrow> bool" where
  "settled s ids \<longleftrightarrow>
     (\<forall>x \<in> set ids. x \<in> get_all_match_ids s \<or> (\<forall>m \<in> set (all_matches s). \<not> dependant x m))"

text \<open>The registry and the positions agree on the ids.\<close>

definition consistent :: "data_sequence \<Rightarrow> bool" where
  "consistent s \<longleftrightarrow> dom (match_by_id s) = get_all_match_ids s"


section \<open>Selection of \<open>drop_matches\<close>\<close>

text \<open>
  The matches that \<open>drop_matches\<close> selects at position \<open>idx\<close>: they start there,
  and their concept is among \<open>concepts\<close> or, with a hierarchy, has an ancestor among
  them.
\<close>

definition drop_selected :: "string list \<Rightarrow> hierarchy_provider option \<Rightarrow> nat \<Rightarrow> match \<Rightarrow> bool" where
  "drop_selected concepts h idx m \<longleftrightarrow>
     start_idx m = int idx
     \<and> (concept m \<in> set concepts
        \<or> (\<exists>hierarchy. h = Some hierarchy
              \<and> set (get_parents hierarchy (concept m)) \<inter> set concepts \<noteq> {}))"

section \<open>The inside constraint\<close>

text \<open>
  A match has the concept \<open>c\<close> or a concept whose ancestors (\<open>get_parents\<close>) contain
  \<open>c\<close>. An event of the trace respects the inside constraint: for a pattern with an
  inside concept, the position of an invocation stores such a match, and for a submitted
  match some stored match of exactly its start index and size is such a match.
\<close>

definition has_concept_under :: "extractor \<Rightarrow> string \<Rightarrow> match \<Rightarrow> bool" where
  "has_concept_under ex c m \<longleftrightarrow> c = concept m \<or> c \<in> set (get_parents (hierarchy ex) (concept m))"

fun event_ok :: "extractor \<Rightarrow> event \<Rightarrow> bool" where
  "event_ok ex (Invoked s i p) =
     (truthy (inside p) \<longrightarrow>
        i < length (elements s)
        \<and> (\<exists>m \<in> set (matches (elements s ! i)). has_concept_under ex (the (inside p)) m))"
| "event_ok ex (Submitted s m p) =
     (truthy (inside p) \<longrightarrow>
        (\<exists>other \<in> set (all_matches s). has_concept_under ex (the (inside p)) other
           \<and> start_idx other = start_idx m \<and> size_m other = size_m m))"

text \<open>
  A trace is faithful from a state: the state recorded with each event is the state that
  the calls of \<open>add_match\<close> before it have led to; replaying these calls gives the
  state at the end.
\<close>

fun replay :: "event list \<Rightarrow> data_sequence \<Rightarrow> data_sequence" where
  "replay [] s = s"
| "replay (Invoked s0 i p # evs) s = replay evs s"
| "replay (Submitted s0 m p # evs) s = replay evs (snd (add_match m s))"

fun faithful :: "event list \<Rightarrow> data_sequence \<Rightarrow> bool" where
  "faithful [] s = True"
| "faithful (Invoked s0 i p # evs) s = (s0 = s \<and> faithful evs s)"
| "faithful (Submitted s0 m p # evs) s = (s0 = s \<and> faithful evs (snd (add_match m s)))"

section \<open>Example data\<close>

text \<open>
  A stack of the default recursion limit, and a comparison of matches that needs one
  frame.
\<close>

definition ex_frames :: nat where
  "ex_frames = 1000"

definition ex_eq_frames :: nat where
  "ex_eq_frames = 1"

text \<open>A supply of ids, and the sequence of the one-character text \<open>a\<close>.\<close>

definition ex_fresh :: "nat \<Rightarrow> string" where
  "ex_fresh i = replicate (Suc i) (CHR ''c'')"

definition seq_a :: data_sequence where
  "seq_a = from_string ''a'' ex_fresh"

text \<open>A match with captured data, added to \<open>seq_a\<close>.\<close>

definition cap_match :: match where
  "cap_match = (new_match ''Word'' ''a'' 1 0 ''w'')\<lparr>extractions := [(''k'', [''v''])]\<rparr>"

definition seq_cap :: data_sequence where
  "seq_cap = snd (add_match cap_match seq_a)"

text \<open>A match of weight one half, and a derivation state that depends on it.\<close>

definition half_match :: match where
  "half_match = (new_match ''Half'' ''a'' 1 0 ''h'')\<lparr>weight := Float (1 / 2)\<rparr>"

definition seq_half :: data_sequence where
  "seq_half = snd (add_match half_match seq_a)"

definition half_state :: match_state where
  "half_state = (MatchState 0)\<lparr>sequence_start_idx := Some 0, sequence_end_idx := Some 1,
                                 depends_on_matches_st := [''h'', ''c'']\<rparr>"

text \<open>A match whose weight is NaN, and a derivation state that depends on it.\<close>

definition nan_match :: match where
  "nan_match = (new_match ''Odd'' ''a'' 1 0 ''n'')\<lparr>weight := NaN\<rparr>"

definition seq_nan :: data_sequence where
  "seq_nan = snd (add_match nan_match seq_a)"

definition nan_state :: match_state where
  "nan_state = (MatchState 0)\<lparr>sequence_start_idx := Some 0, sequence_end_idx := Some 1,
                                depends_on_matches_st := [''n'']\<rparr>"




text \<open>
  Two matches that share the id \<open>x\<close>, the second depending on that id. Both are
  accepted by \<open>add_match\<close>; the non-cascading revocation of \<open>x\<close> then removes the first
  and pops the registry entry, and keeps the second at its position.
\<close>

definition dup1 :: match where
  "dup1 = new_match ''A'' ''a'' 1 0 ''x''"

definition dup2 :: match where
  "dup2 = (new_match ''B'' ''a'' 1 0 ''x'')\<lparr>depends_on_matches := [''x'']\<rparr>"

definition seq_dup :: data_sequence where
  "seq_dup = snd (add_match dup2 (snd (add_match dup1 seq_a)))"

definition seq_orphan :: data_sequence where
  "seq_orphan = snd (revoke_match ex_frames ex_eq_frames ''x'' False seq_dup)"

definition needs_x :: match where
  "needs_x = (new_match ''C'' ''a'' 1 0 ''y'')\<lparr>depends_on_matches := [''x'']\<rparr>"

definition needs_z :: match where
  "needs_z = (new_match ''C'' ''a'' 1 0 ''y'')\<lparr>depends_on_matches := [''c'', ''z'']\<rparr>"




text \<open>Matches of one span: two words, and three sentences with different dependencies.\<close>

definition word1 :: match where
  "word1 = new_match ''Word'' ''a'' 1 0 ''w1''"

definition word2 :: match where
  "word2 = new_match ''Word'' ''a'' 1 0 ''w2''"

definition seq_w1 :: data_sequence where
  "seq_w1 = snd (add_match word1 seq_a)"

definition sentence0 :: match where
  "sentence0 = (new_match ''Sentence'' ''a'' 1 0 ''s0'')\<lparr>depends_on_matches := [''c'']\<rparr>"

definition sentence1 :: match where
  "sentence1 = new_match ''Sentence'' ''a'' 1 0 ''s1''"

definition sentence2 :: match where
  "sentence2 = (new_match ''Sentence'' ''a'' 1 0 ''s2'')\<lparr>depends_on_matches := [''c'']\<rparr>"

definition seq_s0 :: data_sequence where
  "seq_s0 = snd (add_match sentence0 seq_a)"

definition seq_s1 :: data_sequence where
  "seq_s1 = snd (add_match sentence1 seq_s0)"

definition seq_t1 :: data_sequence where
  "seq_t1 = snd (add_match sentence1 seq_a)"

text \<open>A match \<open>A\<close> and a match \<open>B\<close> that depends on it, stored at position 0.\<close>

definition base_match :: match where
  "base_match = new_match ''X'' ''a'' 1 0 ''A''"

definition dep_match :: match where
  "dep_match = (new_match ''Y'' ''a'' 1 0 ''B'')\<lparr>depends_on_matches := [''A'']\<rparr>"

definition seq_dep :: data_sequence where
  "seq_dep = snd (add_match dep_match (snd (add_match base_match seq_a)))"

text \<open>The ids stored at each position, in order.\<close>

definition stored_ids :: "data_sequence \<Rightarrow> string list list" where
  "stored_ids s = map (\<lambda>e. map id_m (matches e)) (elements s)"

text \<open>
  An extractor without hierarchy whose only pattern must lie inside a \<open>Word\<close> and
  yields one match of the span of the first position.
\<close>

definition no_hierarchy :: hierarchy_provider where
  "no_hierarchy = \<lparr>get_parents = (\<lambda>c. []), get_children = (\<lambda>c. [])\<rparr>"

definition inner_pattern :: pattern where
  "inner_pattern = \<lparr>inside = Some ''Word'',
                     match_p = (\<lambda>s st h. [new_match ''Inner'' ''a'' 1 0 ''i''])\<rparr>"

definition ex_extractor :: extractor where
  "ex_extractor = \<lparr>patterns = [inner_pattern], hierarchy = no_hierarchy, single_concepts = []\<rparr>"

section \<open>Basic facts\<close>

lemma foldl_insert_ids: "foldl (\<lambda>ids m. insert (id_m m) ids) acc ms = acc \<union> id_m ` set ms"
  by (induction ms arbitrary: acc) auto

lemma foldl_elements_ids:
  "foldl (\<lambda>match_ids elem. foldl (\<lambda>ids m. insert (id_m m) ids) match_ids (matches elem)) acc es
     = acc \<union> id_m ` set (concat (map matches es))"
  by (induction es arbitrary: acc) (auto simp: foldl_insert_ids)

lemma get_all_match_ids_eq: "get_all_match_ids s = id_m ` set (all_matches s)"
  by (simp add: get_all_match_ids_def all_matches_def foldl_elements_ids)

lemma all_matches_consolidated [simp]: "all_matches (s\<lparr>consolidated := b\<rparr>) = all_matches s"
  by (simp add: all_matches_def)

lemma get_all_match_ids_consolidated [simp]:
  "get_all_match_ids (s\<lparr>consolidated := b\<rparr>) = get_all_match_ids s"
  by (simp add: get_all_match_ids_eq)

section \<open>Dependency check of \<open>add_match\<close>\<close>

text \<open>
  C1 (as amended). \<open>add_match\<close> tests the dependencies against the ids of the matches
  stored at the positions (\<open>get_all_match_ids\<close>), not against the keys of the registry.
  If some dependency id of \<open>m\<close> is not among the stored ids, then \<open>add_match m\<close> returns
  false and the state after the call is the state before it: every position, the
  registry and the consolidated flag. The same holds for an id that the registry does
  not have, as long as every stored id is a key of the registry.
\<close>

theorem add_match_missing_dependency:
  assumes "d \<in> set (depends_on_matches m)"
    and "d \<notin> get_all_match_ids s
         \<or> (get_all_match_ids s \<subseteq> dom (match_by_id s) \<and> d \<notin> dom (match_by_id s))"
  shows "add_match m s = (Inr False, s)"
proof -
  from assms have "\<not> dependencies_present m s"
    by (auto simp: dependencies_present_def)
  then show ?thesis
    by (simp add: add_match_def)
qed

theorem add_match_missing_dependency_witness:
  "''z'' \<in> set (depends_on_matches needs_z) \<and> ''z'' \<notin> get_all_match_ids seq_a
   \<and> add_match needs_z seq_a = (Inr False, seq_a)"
proof -
  have 1: "''z'' \<in> set (depends_on_matches needs_z)"
    by code_simp
  have 2: "''z'' \<notin> get_all_match_ids seq_a"
    by code_simp
  from add_match_missing_dependency [OF 1, of seq_a] 1 2 show ?thesis
    by simp
qed

text \<open>
  C1 as stated (absence from the registry) fails: \<open>seq_orphan\<close> comes from the
  sequence of a text by two calls of \<open>add_match\<close> and a non-cascading
  \<open>revoke_match\<close>; its registry has no key \<open>x\<close>, a match with id \<open>x\<close> is stored at
  position 0, and \<open>add_match\<close> accepts \<open>needs_x\<close>, which depends on \<open>x\<close>.
\<close>

theorem add_match_registry_counterexample:
  "revoke_match ex_frames ex_eq_frames ''x'' False seq_dup = (Inr (), seq_orphan)
   \<and> ''x'' \<in> set (depends_on_matches needs_x)
   \<and> match_by_id seq_orphan ''x'' = None
   \<and> ''x'' \<in> get_all_match_ids seq_orphan
   \<and> fst (add_match needs_x seq_orphan) = Inr True
   \<and> match_by_id (snd (add_match needs_x seq_orphan)) ''y'' = Some needs_x
   \<and> match_by_id seq_orphan ''y'' = None"
proof -
  have "fst (revoke_match ex_frames ex_eq_frames ''x'' False seq_dup) = Inr ()"
    by code_simp
  then have "revoke_match ex_frames ex_eq_frames ''x'' False seq_dup = (Inr (), seq_orphan)"
    by (simp add: seq_orphan_def prod_eq_iff)
  moreover have "''x'' \<in> set (depends_on_matches needs_x)"
    by code_simp
  moreover have "match_by_id seq_orphan ''x'' = None"
    by code_simp
  moreover have "''x'' \<in> get_all_match_ids seq_orphan"
    by code_simp
  moreover have "fst (add_match needs_x seq_orphan) = Inr True"
    by code_simp
  moreover have "match_by_id (snd (add_match needs_x seq_orphan)) ''y'' = Some needs_x"
    by code_simp
  moreover have "match_by_id seq_orphan ''y'' = None"
    by code_simp
  ultimately show ?thesis
    by simp
qed

section \<open>Weight of a finalized match\<close>

lemma py_le_trans: "py_le a b \<Longrightarrow> py_le b c \<Longrightarrow> py_le a c"
  by (cases a; cases b; cases c) auto

lemma py_min_cases: "py_min a b = a \<or> py_min a b = b"
  by (simp add: py_min_def)

lemma py_min_le:
  "a \<noteq> NaN \<Longrightarrow> b \<noteq> NaN \<Longrightarrow> py_le (py_min a b) a \<and> py_le (py_min a b) b"
  by (cases a; cases b) (auto simp: py_min_def)

lemma py_min_not_nan: "a \<noteq> NaN \<Longrightarrow> b \<noteq> NaN \<Longrightarrow> py_min a b \<noteq> NaN"
  by (simp add: py_min_def)

lemma min_weight_absent:
  "\<not> set ds \<subseteq> dom reg \<Longrightarrow> min_weight reg ds w = Inl KeyError"
  by (induction ds arbitrary: w) (auto split: option.splits)

lemma min_weight_present:
  assumes "set ds \<subseteq> dom reg" and "w \<noteq> NaN"
    and "\<forall>d \<in> set ds. weight (the (reg d)) \<noteq> NaN"
  shows "\<exists>r. min_weight reg ds w = Inr r
           \<and> r \<in> insert w ((\<lambda>d. weight (the (reg d))) ` set ds)
           \<and> py_le r w \<and> (\<forall>d \<in> set ds. py_le r (weight (the (reg d))))"
  using assms
proof (induction ds arbitrary: w)
  case Nil
  then show ?case by (cases w) auto
next
  case (Cons d ds)
  then obtain m where m: "reg d = Some m" by auto
  let ?w = "py_min w (weight m)"
  from Cons.prems m have nn: "weight m \<noteq> NaN" by auto
  from Cons.prems(2) nn have "?w \<noteq> NaN" by (rule py_min_not_nan)
  with Cons.IH [of ?w] Cons.prems obtain r where r: "min_weight reg ds ?w = Inr r"
    "r \<in> insert ?w ((\<lambda>d. weight (the (reg d))) ` set ds)"
    "py_le r ?w" "\<forall>d \<in> set ds. py_le r (weight (the (reg d)))"
    by auto
  from py_min_le [OF Cons.prems(2) nn] r(3) have "py_le r w" "py_le r (weight m)"
    by (auto intro: py_le_trans)
  moreover from r(2) py_min_cases [of w "weight m"]
  have "r \<in> insert w ((\<lambda>d. weight (the (reg d))) ` set (d # ds))"
    by (auto simp: m)
  ultimately show ?case
    using r(1,4) m by simp
qed

text \<open>
  C4 (as amended). Let every id of the dependency list of a derivation state be a key of
  the registry, and let neither the requested weight \<open>w\<close> nor the weight of a
  registered match that the state depends on be NaN. Then \<open>get_matches\<close> fails only
  when a bound of the state is unset (TypeError), and returns otherwise; the first
  match of the result, the main match, has as weight the minimum of \<open>w\<close> and these
  weights: it is one of them, it is at most \<open>w\<close> and at most each of them.
\<close>

theorem get_matches_weight:
  assumes "set (depends_on_matches_st st) \<subseteq> dom (match_by_id s)"
    and "w \<noteq> NaN"
    and "\<forall>d \<in> set (depends_on_matches_st st). weight (the (match_by_id s d)) \<noteq> NaN"
  shows "(case get_matches st s c w fresh of
            Inr ms \<Rightarrow> ms \<noteq> [] \<and>
              weight (hd ms) \<in> insert w ((\<lambda>d. weight (the (match_by_id s d)))
                                           ` set (depends_on_matches_st st)) \<and>
              py_le (weight (hd ms)) w \<and>
              (\<forall>d \<in> set (depends_on_matches_st st).
                  py_le (weight (hd ms)) (weight (the (match_by_id s d))))
          | Inl e \<Rightarrow> e = TypeError \<and> (sequence_start_idx st = None \<or> sequence_end_idx st = None))
         \<and> (sequence_start_idx st \<noteq> None \<and> sequence_end_idx st \<noteq> None
              \<longrightarrow> (\<exists>ms. get_matches st s c w fresh = Inr ms))"
  using min_weight_present [OF assms]
  by (auto simp: get_matches_def split: option.splits)

theorem get_matches_weight_witness:
  "set (depends_on_matches_st half_state) \<subseteq> dom (match_by_id seq_half)
   \<and> weight (the (match_by_id seq_half ''h'')) = Float (1 / 2)
   \<and> weight (the (match_by_id seq_half ''c'')) = Float 1
   \<and> (case get_matches half_state seq_half ''Top'' (Float 1) ex_fresh of
         Inr ms \<Rightarrow> weight (hd ms) = Float (1 / 2) | Inl e \<Rightarrow> False)"
proof -
  have h: "match_by_id seq_half ''h'' = Some half_match"
    by code_simp
  have c: "match_by_id seq_half ''c'' = Some (new_match ''Character'' ''a'' 1 0 ''c'')"
    by code_simp
  have deps: "depends_on_matches_st half_state = [''h'', ''c'']"
    by code_simp
  have bounds: "sequence_start_idx half_state = Some 0" "sequence_end_idx half_state = Some 1"
    by (simp_all add: half_state_def)
  have sub: "set (depends_on_matches_st half_state) \<subseteq> dom (match_by_id seq_half)"
    using h c by (auto simp: deps)
  have wh: "weight half_match = Float (1 / 2)"
    "weight (new_match ''Character'' ''a'' 1 0 ''c'') = Float 1"
    by (simp_all add: half_match_def new_match_def)
  have nn: "\<forall>d \<in> set (depends_on_matches_st half_state). weight (the (match_by_id seq_half d)) \<noteq> NaN"
    by (simp add: deps h c wh)
  have "Float 1 \<noteq> NaN"
    by simp
  from get_matches_weight [OF sub this nn, where c = "''Top''" and fresh = ex_fresh]
    sub wh h c bounds
  show ?thesis
    by (auto simp: deps split: sum.splits)
qed

text \<open>
  C4 as stated fails for a weight that is NaN: the state \<open>nan_state\<close> depends on a
  registered match of weight NaN; requested with weight 1, the main match keeps the
  weight 1 (\<^verbatim>\<open>min(1.0, nan)\<close> is \<open>1.0\<close>), which is not at most the weight of the
  dependency.
\<close>

theorem get_matches_nan_counterexample:
  "set (depends_on_matches_st nan_state) \<subseteq> dom (match_by_id seq_nan)
   \<and> weight (the (match_by_id seq_nan ''n'')) = NaN
   \<and> map weight (projr (get_matches nan_state seq_nan ''Top'' (Float 1) ex_fresh)) = [Float 1]
   \<and> py_min (Float 1) NaN = Float 1
   \<and> \<not> py_le (Float 1) (weight (the (match_by_id seq_nan ''n'')))"
proof -
  have n: "match_by_id seq_nan ''n'' = Some nan_match"
    by code_simp
  have deps: "depends_on_matches_st nan_state = [''n'']"
    by code_simp
  have w: "weight nan_match = NaN"
    by (simp add: nan_match_def)
  have "map weight (projr (get_matches nan_state seq_nan ''Top'' (Float 1) ex_fresh)) = [Float 1]"
    by code_simp
  moreover have "py_min (Float 1) NaN = Float 1"
    by (simp add: py_min_def)
  ultimately show ?thesis
    using n by (auto simp: deps w)
qed

section \<open>Extraction results\<close>

text \<open>
  C5. While the consolidated flag is false, \<open>extract_s\<close> raises; while it is true,
  \<open>extract_s\<close> returns the aggregated list stored for the key, and the empty list for a
  key that the aggregated mapping does not have.
\<close>

theorem extract_stale_raises_fresh_returns:
  "(\<not> consolidated s \<longrightarrow> extract_s s k = Inl NotConsolidated) \<and>
   (consolidated s \<longrightarrow>
      (\<forall>vs. extractions_s s k = Some vs \<longrightarrow> extract_s s k = Inr vs) \<and>
      (extractions_s s k = None \<longrightarrow> extract_s s k = Inr []))"
  by (simp add: extract_s_def get_list_def)

theorem extract_stale_raises_fresh_returns_witness:
  "\<not> consolidated seq_cap \<and> extract_s seq_cap ''k'' = Inl NotConsolidated
   \<and> consolidated (consolidate seq_cap)
   \<and> extractions_s (consolidate seq_cap) ''k'' = Some [''v'']
   \<and> extract_s (consolidate seq_cap) ''k'' = Inr [''v'']
   \<and> extractions_s (consolidate seq_cap) ''z'' = None
   \<and> extract_s (consolidate seq_cap) ''z'' = Inr []"
proof -
  have 1: "\<not> consolidated seq_cap"
    by code_simp
  have 2: "consolidated (consolidate seq_cap)"
    by code_simp
  have 3: "extractions_s (consolidate seq_cap) ''k'' = Some [''v'']"
    by code_simp
  have 4: "extractions_s (consolidate seq_cap) ''z'' = None"
    by code_simp
  from extract_stale_raises_fresh_returns [of seq_cap "''k''"]
    extract_stale_raises_fresh_returns [of "consolidate seq_cap" "''k''"]
    extract_stale_raises_fresh_returns [of "consolidate seq_cap" "''z''"]
    1 2 3 4
  show ?thesis
    by simp
qed

section \<open>The registry after \<open>from_string\<close> and \<open>add_match\<close>\<close>

text \<open>
  \<open>from_string\<close> registers every match that it stores, and so does \<open>add_match\<close>;
  a match that does not depend on its own id brings no self-dependency.
\<close>

lemma foldl_register_dom:
  "dom (foldl (\<lambda>r m. r(id_m m \<mapsto> m)) reg ms) = dom reg \<union> id_m ` set ms"
  by (induction ms arbitrary: reg) auto

lemma foldl_register_elements_dom:
  "dom (foldl (\<lambda>reg ele. foldl (\<lambda>r m. r(id_m m \<mapsto> m)) reg (matches ele)) reg es)
     = dom reg \<union> id_m ` set (concat (map matches es))"
  by (induction es arbitrary: reg) (auto simp: foldl_register_dom)

lemma post_init_consistent:
  "dom (match_by_id s) \<subseteq> get_all_match_ids s \<Longrightarrow> consistent (post_init s)"
  by (auto simp: consistent_def post_init_def foldl_register_elements_dom get_all_match_ids_eq
      all_matches_def)

lemma from_string_matches:
  "all_matches (from_string text fresh)
     = map (\<lambda>(i, ch). new_match ''Character'' [ch] 1 (int i) (fresh i)) (enumerate 0 text)"
proof -
  have "concat (map (\<lambda>p. [f p]) xs) = map f xs" for f :: "nat \<times> char \<Rightarrow> match" and xs
    by (induction xs) simp_all
  from this [of "\<lambda>(i, ch). new_match ''Character'' [ch] 1 (int i) (fresh i)" "enumerate 0 text"]
  show ?thesis
    by (simp add: from_string_def post_init_def all_matches_def comp_def case_prod_unfold)
qed

lemma from_string_invariant:
  "no_self_dependency (from_string text fresh) \<and> consistent (from_string text fresh)"
proof
  show "no_self_dependency (from_string text fresh)"
    by (auto simp: no_self_dependency_def from_string_matches new_match_def)
  show "consistent (from_string text fresh)"
    unfolding from_string_def by (rule post_init_consistent) simp
qed

lemma all_matches_update:
  assumes "i < length (elements s)"
  shows "set (all_matches (s\<lparr>elements := (elements s)[i := (elements s ! i)\<lparr>matches := matches (elements s ! i) @ [m]\<rparr>],
                             match_by_id := reg\<rparr>))
     = insert m (set (all_matches s))"
proof -
  have "set (concat (map matches (es[i := (es ! i)\<lparr>matches := matches (es ! i) @ [m]\<rparr>])))
      = insert m (set (concat (map matches es)))" if "i < length es" for es :: "data_element list"
    using that
  proof (induction es arbitrary: i)
    case Nil
    then show ?case by simp
  next
    case (Cons e es)
    then show ?case
      by (cases i) auto
  qed
  with assms show ?thesis
    by (simp add: all_matches_def)
qed

lemma add_match_loop_invariant:
  "add_match_loop m idxs s b = (r, s') \<Longrightarrow> consistent s \<Longrightarrow>
     consistent s' \<and> set (all_matches s') \<subseteq> insert m (set (all_matches s))"
proof (induction idxs arbitrary: s b)
  case Nil
  then show ?case by auto
next
  case (Cons idx idxs)
  show ?case
  proof (cases "py_index (elements s) (start_idx m + int idx)")
    case None
    with Cons.prems show ?thesis by auto
  next
    case (Some i)
    then have il: "i < length (elements s)"
      by (auto simp: py_index_def split: if_splits)
    show ?thesis
    proof (cases "contains_match (matches (elements s ! i)) m")
      case True
      have same: "s\<lparr>elements := (elements s)[i := elements s ! i], match_by_id := match_by_id s\<rparr> = s"
        by simp
      from Cons.prems Some True have "add_match_loop m idxs s b = (r, s')"
        by (simp add: add_match_e_def same)
      from Cons.IH [OF this Cons.prems(2)] show ?thesis .
    next
      case False
      let ?s1 = "s\<lparr>elements := (elements s)[i := (elements s ! i)\<lparr>matches := matches (elements s ! i) @ [m]\<rparr>],
                   match_by_id := (match_by_id s)(id_m m \<mapsto> m)\<rparr>"
      from Cons.prems Some False have run: "add_match_loop m idxs ?s1 True = (r, s')"
        by (simp add: add_match_e_def)
      have am: "set (all_matches ?s1) = insert m (set (all_matches s))"
        using il by (rule all_matches_update)
      have "consistent ?s1"
        using Cons.prems(2) by (simp add: consistent_def get_all_match_ids_eq am)
      from Cons.IH [OF run this] am show ?thesis
        by auto
    qed
  qed
qed

lemma add_match_invariant:
  assumes "add_match m s = (r, s')" and "id_m m \<notin> set (depends_on_matches m)"
    and "no_self_dependency s" and "consistent s"
  shows "no_self_dependency s' \<and> consistent s'"
proof (cases "dependencies_present m s")
  case False
  with assms show ?thesis
    by (simp add: add_match_def)
next
  case True
  with assms(1) have "add_match_loop m [0..<nat (size_m m)] (s\<lparr>consolidated := False\<rparr>) False = (r, s')"
    by (simp add: add_match_def)
  from add_match_loop_invariant [OF this] assms(4)
  have "consistent s'" "set (all_matches s') \<subseteq> insert m (set (all_matches s))"
    by (simp_all add: consistent_def)
  with assms(2,3) show ?thesis
    by (auto simp: no_self_dependency_def)
qed

section \<open>Consolidation\<close>















section \<open>Adding an equivalent match\<close>

lemma contains_match_iff:
  "contains_match ms m \<longleftrightarrow> (\<exists>saved \<in> set ms. equivalent saved m)"
  by (induction ms) (auto simp: equivalent_def)

lemma py_index_less: "py_index xs i = Some j \<Longrightarrow> j < length xs"
  by (auto simp: py_index_def split: if_splits)

lemma py_index_length_cong: "length xs = length ys \<Longrightarrow> py_index xs i = py_index ys i"
  by (simp add: py_index_def)

lemma add_match_e_grows: "add_match_e e m = (added, e') \<Longrightarrow> set (matches e) \<subseteq> set (matches e')"
  by (auto simp: add_match_e_def split: if_splits)

lemma add_match_e_contains:
  "add_match_e e m = (added, e') \<Longrightarrow> contains_match (matches e') m"
  by (auto simp: add_match_e_def contains_match_iff equivalent_def split: if_splits)

lemma add_match_loop_keeps:
  "add_match_loop m idxs s b = (r, s') \<Longrightarrow>
     length (elements s') = length (elements s)
     \<and> (\<forall>i < length (elements s). set (matches (elements s ! i)) \<subseteq> set (matches (elements s' ! i)))
     \<and> consolidated s' = consolidated s \<and> value_s s' = value_s s
     \<and> extractions_s s' = extractions_s s
     \<and> (match_by_id s (id_m m) = Some m \<longrightarrow> match_by_id s' (id_m m) = Some m)"
proof (induction idxs arbitrary: s b)
  case Nil
  then show ?case by simp
next
  case (Cons idx idxs)
  show ?case
  proof (cases "py_index (elements s) (start_idx m + int idx)")
    case None
    with Cons.prems show ?thesis by simp
  next
    case (Some i)
    obtain added e' where ae: "add_match_e (elements s ! i) m = (added, e')"
      by (cases "add_match_e (elements s ! i) m")
    let ?s1 = "s\<lparr>elements := (elements s)[i := e'],
                 match_by_id := (if added then (match_by_id s)(id_m m \<mapsto> m) else match_by_id s)\<rparr>"
    from Cons.prems Some ae have "add_match_loop m idxs ?s1 (b \<or> added) = (r, s')"
      by simp
    from Cons.IH [OF this] have
      len: "length (elements s') = length (elements s)" and
      sub: "\<forall>j < length (elements s). set (matches ((elements s)[i := e'] ! j)) \<subseteq> set (matches (elements s' ! j))" and
      rest: "consolidated s' = consolidated s" "value_s s' = value_s s" "extractions_s s' = extractions_s s" and
      reg: "(if added then (match_by_id s)(id_m m \<mapsto> m) else match_by_id s) (id_m m) = Some m
              \<longrightarrow> match_by_id s' (id_m m) = Some m"
      by simp_all
    have "set (matches (elements s ! j)) \<subseteq> set (matches (elements s' ! j))"
      if "j < length (elements s)" for j
    proof (cases "j = i")
      case True
      with sub that add_match_e_grows [OF ae] show ?thesis
        by fastforce
    next
      case False
      with sub that show ?thesis
        by fastforce
    qed
    moreover from reg have "match_by_id s (id_m m) = Some m \<longrightarrow> match_by_id s' (id_m m) = Some m"
      by (simp split: if_splits)
    ultimately show ?thesis
      using len rest by simp
  qed
qed


lemma add_match_loop_length:
  "add_match_loop m idxs s b = (r, s') \<Longrightarrow> length (elements s') = length (elements s)"
  by (drule add_match_loop_keeps) simp

lemma add_match_loop_mono:
  "add_match_loop m idxs s b = (r, s') \<Longrightarrow> i < length (elements s) \<Longrightarrow>
     set (matches (elements s ! i)) \<subseteq> set (matches (elements s' ! i))"
  by (drule add_match_loop_keeps) simp

lemma add_match_loop_registry:
  "add_match_loop m idxs s b = (r, s') \<Longrightarrow> match_by_id s (id_m m) = Some m \<Longrightarrow>
     match_by_id s' (id_m m) = Some m"
  by (drule add_match_loop_keeps) simp

lemma py_index_update: "py_index (xs[i := x]) j = py_index xs j"
  by (rule py_index_length_cong) simp

lemma add_match_loop_returns:
  "\<forall>idx \<in> set idxs. py_index (elements s) (start_idx m + int idx) \<noteq> None \<Longrightarrow>
     \<exists>r s'. add_match_loop m idxs s b = (Inr r, s')"
proof (induction idxs arbitrary: s b)
  case Nil
  then show ?case by simp
next
  case (Cons idx idxs)
  from Cons.prems obtain i where i: "py_index (elements s) (start_idx m + int idx) = Some i"
    by auto
  obtain added e' where ae: "add_match_e (elements s ! i) m = (added, e')"
    by (cases "add_match_e (elements s ! i) m")
  let ?s1 = "s\<lparr>elements := (elements s)[i := e'],
               match_by_id := (if added then (match_by_id s)(id_m m \<mapsto> m) else match_by_id s)\<rparr>"
  have "\<forall>idx \<in> set idxs. py_index (elements ?s1) (start_idx m + int idx) \<noteq> None"
    using Cons.prems by (simp add: py_index_update)
  from Cons.IH [OF this, of "b \<or> added"] i ae show ?case
    by simp
qed

lemma add_match_loop_valid:
  "add_match_loop m idxs s b = (Inr r, s') \<Longrightarrow>
     \<forall>idx \<in> set idxs. py_index (elements s) (start_idx m + int idx) \<noteq> None"
proof (induction idxs arbitrary: s b)
  case Nil
  then show ?case by simp
next
  case (Cons idx idxs)
  from Cons.prems obtain i where i: "py_index (elements s) (start_idx m + int idx) = Some i"
    by (cases "py_index (elements s) (start_idx m + int idx)") auto
  obtain added e' where ae: "add_match_e (elements s ! i) m = (added, e')"
    by (cases "add_match_e (elements s ! i) m")
  let ?s1 = "s\<lparr>elements := (elements s)[i := e'],
               match_by_id := (if added then (match_by_id s)(id_m m \<mapsto> m) else match_by_id s)\<rparr>"
  from Cons.prems i ae have "add_match_loop m idxs ?s1 (b \<or> added) = (Inr r, s')"
    by simp
  from Cons.IH [OF this] i show ?case
    by (simp add: py_index_update)
qed

text \<open>The flag that the loop returns, read off the state before the loop.\<close>

lemma add_match_loop_flag:
  "add_match_loop m idxs s b = (Inr r, s') \<Longrightarrow>
     r = (b \<or> (\<exists>idx \<in> set idxs. \<exists>i. py_index (elements s) (start_idx m + int idx) = Some i
                  \<and> \<not> contains_match (matches (elements s ! i)) m))"
proof (induction idxs arbitrary: s b)
  case Nil
  then show ?case by simp
next
  case (Cons idx idxs)
  from Cons.prems obtain i where i: "py_index (elements s) (start_idx m + int idx) = Some i"
    by (cases "py_index (elements s) (start_idx m + int idx)") auto
  show ?case
  proof (cases "contains_match (matches (elements s ! i)) m")
    case True
    then have ae: "add_match_e (elements s ! i) m = (False, elements s ! i)"
      by (simp add: add_match_e_def)
    have same: "s\<lparr>elements := (elements s)[i := elements s ! i], match_by_id := match_by_id s\<rparr> = s"
      by simp
    from Cons.prems i ae have "add_match_loop m idxs s b = (Inr r, s')"
      by (simp add: same)
    from Cons.IH [OF this] True i show ?thesis
      by auto
  next
    case False
    then have ae: "add_match_e (elements s ! i) m
        = (True, (elements s ! i)\<lparr>matches := matches (elements s ! i) @ [m]\<rparr>)"
      by (simp add: add_match_e_def)
    let ?s1 = "s\<lparr>elements := (elements s)[i := (elements s ! i)\<lparr>matches := matches (elements s ! i) @ [m]\<rparr>],
                 match_by_id := (match_by_id s)(id_m m \<mapsto> m)\<rparr>"
    from Cons.prems i ae have "add_match_loop m idxs ?s1 True = (Inr r, s')"
      by simp
    from Cons.IH [OF this] have r by simp
    with False i show ?thesis
      by auto
  qed
qed

text \<open>When the loop returns true without having started from true, the match is stored
  and registered.\<close>

lemma add_match_loop_stored:
  "add_match_loop m idxs s b = (Inr True, s') \<Longrightarrow> \<not> b \<Longrightarrow>
     match_by_id s' (id_m m) = Some m
     \<and> (\<exists>i < length (elements s'). m \<in> set (matches (elements s' ! i)))"
proof (induction idxs arbitrary: s)
  case Nil
  then show ?case by simp
next
  case (Cons idx idxs)
  from Cons.prems obtain i where i: "py_index (elements s) (start_idx m + int idx) = Some i"
    by (cases "py_index (elements s) (start_idx m + int idx)") auto
  show ?case
  proof (cases "contains_match (matches (elements s ! i)) m")
    case True
    then have ae: "add_match_e (elements s ! i) m = (False, elements s ! i)"
      by (simp add: add_match_e_def)
    have same: "s\<lparr>elements := (elements s)[i := elements s ! i], match_by_id := match_by_id s\<rparr> = s"
      by simp
    from Cons.prems i ae have "add_match_loop m idxs s b = (Inr True, s')"
      by (simp add: same)
    from Cons.IH [OF this] Cons.prems show ?thesis
      by simp
  next
    case False
    then have ae: "add_match_e (elements s ! i) m
        = (True, (elements s ! i)\<lparr>matches := matches (elements s ! i) @ [m]\<rparr>)"
      by (simp add: add_match_e_def)
    let ?s1 = "s\<lparr>elements := (elements s)[i := (elements s ! i)\<lparr>matches := matches (elements s ! i) @ [m]\<rparr>],
                 match_by_id := (match_by_id s)(id_m m \<mapsto> m)\<rparr>"
    from Cons.prems i ae have run: "add_match_loop m idxs ?s1 True = (Inr True, s')"
      by simp
    have il: "i < length (elements s)"
      using i by (rule py_index_less)
    have "match_by_id s' (id_m m) = Some m"
      by (rule add_match_loop_registry [OF run]) simp
    moreover have len: "length (elements s') = length (elements s)"
      using add_match_loop_length [OF run] by simp
    moreover have "m \<in> set (matches (elements s' ! i))"
      using add_match_loop_mono [OF run, of i] il by simp
    ultimately show ?thesis
      using il by auto
  qed
qed

text \<open>After a loop that returned, every visited position holds an equivalent match.\<close>

lemma add_match_loop_covers:
  "add_match_loop m idxs s b = (Inr r, s') \<Longrightarrow>
     \<forall>idx \<in> set idxs. \<exists>i. py_index (elements s') (start_idx m + int idx) = Some i
        \<and> contains_match (matches (elements s' ! i)) m"
proof (induction idxs arbitrary: s b)
  case Nil
  then show ?case by simp
next
  case (Cons idx idxs)
  from Cons.prems obtain i where i: "py_index (elements s) (start_idx m + int idx) = Some i"
    by (cases "py_index (elements s) (start_idx m + int idx)") auto
  obtain added e' where ae: "add_match_e (elements s ! i) m = (added, e')"
    by (cases "add_match_e (elements s ! i) m")
  let ?s1 = "s\<lparr>elements := (elements s)[i := e'],
               match_by_id := (if added then (match_by_id s)(id_m m \<mapsto> m) else match_by_id s)\<rparr>"
  from Cons.prems i ae have run: "add_match_loop m idxs ?s1 (b \<or> added) = (Inr r, s')"
    by simp
  have il: "i < length (elements s)"
    using i by (rule py_index_less)
  have len: "length (elements s') = length (elements s)"
    using add_match_loop_length [OF run] by simp
  have sub: "set (matches e') \<subseteq> set (matches (elements s' ! i))"
    using add_match_loop_mono [OF run, of i] il by simp
  from add_match_e_contains [OF ae] sub have "contains_match (matches (elements s' ! i)) m"
    by (auto simp: contains_match_iff)
  moreover have "py_index (elements s') (start_idx m + int idx) = Some i"
    using i py_index_length_cong [OF len] by simp
  ultimately show ?case
    using Cons.IH [OF run] by simp
qed


lemma add_match_loop_noop:
  "\<forall>idx \<in> set idxs. \<exists>i. py_index (elements s) (start_idx m + int idx) = Some i
       \<and> contains_match (matches (elements s ! i)) m \<Longrightarrow>
     add_match_loop m idxs s b = (Inr b, s)"
proof (induction idxs)
  case Nil
  then show ?case by simp
next
  case (Cons idx idxs)
  from Cons.prems obtain i where i: "py_index (elements s) (start_idx m + int idx) = Some i"
    and c: "contains_match (matches (elements s ! i)) m"
    by auto
  have same: "s\<lparr>elements := (elements s)[i := elements s ! i], match_by_id := match_by_id s\<rparr> = s"
    by simp
  from Cons i c show ?case
    by (simp add: add_match_e_def same)
qed

lemma nth_in_all_matches:
  "i < length (elements s) \<Longrightarrow> m \<in> set (matches (elements s ! i)) \<Longrightarrow> m \<in> set (all_matches s)"
  by (auto simp: all_matches_def intro: nth_mem)

lemma equivalent_transfer:
  assumes "concept m2 = concept m1" "start_idx m2 = start_idx m1" "size_m m2 = size_m m1"
    and "concept m1 \<notin> {''Sentence'', ''MakesSense''} \<or> depends_on_matches m2 = depends_on_matches m1"
  shows "equivalent saved m2 = equivalent saved m1"
  using assms by (auto simp: equivalent_def)

text \<open>
  C3 (as amended). Let \<open>m1\<close> and \<open>m2\<close> have the same concept, start index and size,
  and let \<open>add_match m1\<close> have returned true. If the concept is not one of \<open>Sentence\<close>
  and \<open>MakesSense\<close>, or if the dependency lists are equal, then \<open>add_match m2\<close>
  returns false and leaves the state as it is. In general \<open>add_match m2\<close> returns true
  exactly when all dependencies of \<open>m2\<close> are stored in the sequence and some position
  of the span holds no match equivalent to \<open>m2\<close>; for a dependency-sensitive concept
  that is a match of this concept, start and size with the dependency list of \<open>m2\<close>.
  When it returns true, \<open>m2\<close> is registered and stored.
\<close>

theorem add_match_equivalent_twice:
  assumes same: "concept m2 = concept m1" "start_idx m2 = start_idx m1" "size_m m2 = size_m m1"
    and add1: "add_match m1 s = (Inr True, s1)"
  shows "(concept m1 \<notin> {''Sentence'', ''MakesSense''} \<or> depends_on_matches m2 = depends_on_matches m1
            \<longrightarrow> add_match m2 s1 = (Inr False, s1))
     \<and> fst (add_match m2 s1)
         = Inr (dependencies_present m2 s1
                \<and> (\<exists>idx < nat (size_m m2). \<exists>i.
                      py_index (elements s1) (start_idx m2 + int idx) = Some i
                      \<and> (\<forall>saved \<in> set (matches (elements s1 ! i)). \<not> equivalent saved m2)))
     \<and> (fst (add_match m2 s1) = Inr True
           \<longrightarrow> match_by_id (snd (add_match m2 s1)) (id_m m2) = Some m2
               \<and> m2 \<in> set (all_matches (snd (add_match m2 s1))))"
proof -
  let ?idxs = "[0..<nat (size_m m1)]"
  from add1 have loop1: "add_match_loop m1 ?idxs (s\<lparr>consolidated := False\<rparr>) False = (Inr True, s1)"
    by (auto simp: add_match_def split: if_splits)
  from add_match_loop_keeps [OF loop1] have "\<not> consolidated s1"
    by simp
  then have stale: "s1\<lparr>consolidated := False\<rparr> = s1"
    by simp
  from add_match_loop_covers [OF loop1]
  have cov: "\<forall>idx \<in> set ?idxs. \<exists>i. py_index (elements s1) (start_idx m1 + int idx) = Some i
        \<and> contains_match (matches (elements s1 ! i)) m1" .
  then have "\<forall>idx \<in> set ?idxs. py_index (elements s1) (start_idx m2 + int idx) \<noteq> None"
    by (auto simp: same)
  from add_match_loop_returns [OF this, of False]
  obtain r s2 where loop2: "add_match_loop m2 ?idxs s1 False = (Inr r, s2)"
    by blast
  have add2: "add_match m2 s1 = (if dependencies_present m2 s1 then (Inr r, s2) else (Inr False, s1))"
    by (simp add: add_match_def same stale loop2)
  have 1: "add_match m2 s1 = (Inr False, s1)"
    if eq: "concept m1 \<notin> {''Sentence'', ''MakesSense''} \<or> depends_on_matches m2 = depends_on_matches m1"
  proof -
    from cov have "\<forall>idx \<in> set ?idxs. \<exists>i. py_index (elements s1) (start_idx m2 + int idx) = Some i
        \<and> contains_match (matches (elements s1 ! i)) m2"
      by (simp add: same contains_match_iff equivalent_transfer [OF same eq])
    from add_match_loop_noop [OF this, of False] loop2 add2 show ?thesis
      by (simp split: if_splits)
  qed
  have 2: "r = (\<exists>idx < nat (size_m m2). \<exists>i.
                      py_index (elements s1) (start_idx m2 + int idx) = Some i
                      \<and> (\<forall>saved \<in> set (matches (elements s1 ! i)). \<not> equivalent saved m2))"
    using add_match_loop_flag [OF loop2] by (auto simp: same contains_match_iff)
  have 3: "match_by_id s2 (id_m m2) = Some m2 \<and> m2 \<in> set (all_matches s2)" if r
    using add_match_loop_stored [of m2 ?idxs s1 False s2] loop2 that
    by (auto intro: nth_in_all_matches)
  from 1 2 3 add2 show ?thesis
    by auto
qed

theorem add_match_equivalent_twice_witness:
  "concept word2 = concept word1 \<and> start_idx word2 = start_idx word1
   \<and> size_m word2 = size_m word1 \<and> concept word1 \<notin> {''Sentence'', ''MakesSense''}
   \<and> add_match word1 seq_a = (Inr True, seq_w1)
   \<and> add_match word2 seq_w1 = (Inr False, seq_w1)
   \<and> add_match sentence1 seq_a = (Inr True, seq_t1)
   \<and> fst (add_match sentence2 seq_t1) = Inr True
   \<and> match_by_id (snd (add_match sentence2 seq_t1)) (id_m sentence2) = Some sentence2"
proof -
  have w: "concept word2 = concept word1" "start_idx word2 = start_idx word1"
    "size_m word2 = size_m word1"
    by (simp_all add: word1_def word2_def new_match_def)
  have wc: "concept word1 \<notin> {''Sentence'', ''MakesSense''}"
    by (simp add: word1_def new_match_def)
  have "fst (add_match word1 seq_a) = Inr True"
    by code_simp
  then have w1: "add_match word1 seq_a = (Inr True, seq_w1)"
    by (simp add: seq_w1_def prod_eq_iff)
  have t: "concept sentence2 = concept sentence1" "start_idx sentence2 = start_idx sentence1"
    "size_m sentence2 = size_m sentence1"
    by (simp_all add: sentence1_def sentence2_def new_match_def)
  have "fst (add_match sentence1 seq_a) = Inr True"
    by code_simp
  then have t1: "add_match sentence1 seq_a = (Inr True, seq_t1)"
    by (simp add: seq_t1_def prod_eq_iff)
  have t2: "fst (add_match sentence2 seq_t1) = Inr True"
    by code_simp
  from add_match_equivalent_twice [OF w w1] add_match_equivalent_twice [OF t t1] w wc w1 t1 t2
  show ?thesis
    by simp
qed

text \<open>
  C3 as stated fails in its second part: \<open>sentence1\<close> is added to a sequence that
  already holds \<open>sentence0\<close>; the dependency list of \<open>sentence2\<close> differs from that of
  \<open>sentence1\<close> and all its dependencies are stored, yet \<open>sentence2\<close> is not inserted,
  because \<open>sentence0\<close> has the same dependency list.
\<close>

theorem add_match_sensitive_counterexample:
  "concept sentence1 = ''Sentence'' \<and> concept sentence2 = concept sentence1
   \<and> start_idx sentence2 = start_idx sentence1 \<and> size_m sentence2 = size_m sentence1
   \<and> add_match sentence1 seq_s0 = (Inr True, seq_s1)
   \<and> depends_on_matches sentence2 \<noteq> depends_on_matches sentence1
   \<and> dependencies_present sentence2 seq_s1
   \<and> fst (add_match sentence2 seq_s1) = Inr False
   \<and> match_by_id (snd (add_match sentence2 seq_s1)) (id_m sentence2) = None
   \<and> length (all_matches (snd (add_match sentence2 seq_s1))) = length (all_matches seq_s1)"
proof -
  have "concept sentence1 = ''Sentence''" "concept sentence2 = concept sentence1"
    "start_idx sentence2 = start_idx sentence1" "size_m sentence2 = size_m sentence1"
    "depends_on_matches sentence2 \<noteq> depends_on_matches sentence1"
    by (simp_all add: sentence1_def sentence2_def new_match_def)
  moreover have "fst (add_match sentence1 seq_s0) = Inr True"
    by code_simp
  then have "add_match sentence1 seq_s0 = (Inr True, seq_s1)"
    by (simp add: seq_s1_def prod_eq_iff)
  moreover have "dependencies_present sentence2 seq_s1"
    by code_simp
  moreover have "fst (add_match sentence2 seq_s1) = Inr False"
    by code_simp
  moreover have "match_by_id (snd (add_match sentence2 seq_s1)) (id_m sentence2) = None"
    by code_simp
  moreover have "length (all_matches (snd (add_match sentence2 seq_s1))) = length (all_matches seq_s1)"
    by code_simp
  ultimately show ?thesis
    by simp
qed

section \<open>The scan of \<open>revoke_match\<close>\<close>

lemma revoke_scan_eq:
  "revoke_scan match_id ms to_revoke to_remove
     = (to_revoke @ map id_m (filter (dependant match_id) ms),
        to_remove @ filter (removable match_id) ms)"
  by (induction ms arbitrary: to_revoke to_remove) (auto simp: dependant_def removable_def)

text \<open>Whatever the stack, a removal loop deletes nothing but matches of \<open>to_remove\<close>.\<close>

lemma revoke_remove_subset:
  "revoke_remove frames eq_frames to_remove reg ms = (r, reg', ms') \<Longrightarrow> x \<in> set ms' \<Longrightarrow> x \<in> set ms"
proof (induction to_remove arbitrary: reg ms)
  case Nil
  then show ?case by simp
next
  case (Cons y to_remove)
  show ?case
  proof (cases "(case ms of [] \<Rightarrow> False | first # others \<Rightarrow> first = y) \<or> eq_frames \<le> frames")
    case True
    with Cons.prems(1)
    have "revoke_remove frames eq_frames to_remove (reg(id_m y := None)) (remove1 y ms) = (r, reg', ms')"
      by simp
    from Cons.IH [OF this Cons.prems(2)] set_remove1_subset [of y ms] show ?thesis
      by (rule subsetD [rotated])
  next
    case False
    with Cons.prems show ?thesis
      by simp
  qed
qed

lemma revoke_remove_keeps:
  "revoke_remove frames eq_frames to_remove reg ms = (r, reg', ms') \<Longrightarrow>
     x \<in> set ms \<Longrightarrow> x \<notin> set to_remove \<Longrightarrow> x \<in> set ms'"
proof (induction to_remove arbitrary: reg ms)
  case Nil
  then show ?case by simp
next
  case (Cons y to_remove)
  show ?case
  proof (cases "(case ms of [] \<Rightarrow> False | first # others \<Rightarrow> first = y) \<or> eq_frames \<le> frames")
    case True
    with Cons.prems(1)
    have run: "revoke_remove frames eq_frames to_remove (reg(id_m y := None)) (remove1 y ms) = (r, reg', ms')"
      by simp
    from Cons.prems(2,3) have "x \<in> set (remove1 y ms)" "x \<notin> set to_remove"
      by simp_all
    with run show ?thesis
      by (rule Cons.IH)
  next
    case False
    with Cons.prems show ?thesis
      by simp
  qed
qed

lemma revoke_remove_error:
  "revoke_remove frames eq_frames to_remove reg ms = (Inl err, reg', ms') \<Longrightarrow> err = RecursionError"
  by (induction to_remove arbitrary: reg ms) (auto split: if_splits)

text \<open>With enough stack for a comparison, the removal loop removes the whole of \<open>to_remove\<close>.\<close>

lemma revoke_remove_filter:
  "eq_frames \<le> frames \<Longrightarrow> \<forall>y \<in> set pre. \<not> P y \<Longrightarrow>
     fst (revoke_remove frames eq_frames (filter P xs) reg (pre @ xs)) = Inr ()
     \<and> snd (snd (revoke_remove frames eq_frames (filter P xs) reg (pre @ xs)))
         = pre @ filter (\<lambda>x. \<not> P x) xs"
proof (induction xs arbitrary: pre reg)
  case Nil
  then show ?case by simp
next
  case (Cons x xs)
  show ?case
  proof (cases "P x")
    case True
    with Cons.prems have "x \<notin> set pre" by auto
    then have "remove1 x (pre @ x # xs) = pre @ xs"
      by (simp add: remove1_append)
    with True Cons.IH [OF Cons.prems] Cons.prems(1) show ?thesis
      by simp
  next
    case False
    with Cons.prems have "\<forall>y \<in> set (pre @ [x]). \<not> P y" by auto
    from Cons.IH [OF Cons.prems(1) this] False show ?thesis
      by simp
  qed
qed

lemma revoke_remove_registry:
  "eq_frames \<le> frames \<Longrightarrow> \<forall>m \<in> set to_remove. id_m m = match_id \<Longrightarrow>
     fst (snd (revoke_remove frames eq_frames to_remove reg ms))
       = (if to_remove = [] then reg else reg(match_id := None))"
  by (induction to_remove arbitrary: reg ms) auto

lemma revoke_remove_eq:
  assumes "eq_frames \<le> frames"
  shows "revoke_remove frames eq_frames (filter (removable match_id) ms) reg ms
     = (Inr (), if \<exists>m \<in> set ms. removable match_id m then reg(match_id := None) else reg,
        filter (\<lambda>m. \<not> removable match_id m) ms)"
proof -
  have "fst (revoke_remove frames eq_frames (filter (removable match_id) ms) reg ([] @ ms)) = Inr ()
      \<and> snd (snd (revoke_remove frames eq_frames (filter (removable match_id) ms) reg ([] @ ms)))
      = [] @ filter (\<lambda>m. \<not> removable match_id m) ms"
    using assms by (rule revoke_remove_filter) simp
  moreover have "fst (snd (revoke_remove frames eq_frames (filter (removable match_id) ms) reg ms))
      = (if filter (removable match_id) ms = [] then reg else reg(match_id := None))"
    using assms by (rule revoke_remove_registry) (simp add: removable_def)
  ultimately show ?thesis
    by (auto simp: prod_eq_iff filter_empty_conv)
qed

lemma revoke_nodes_eq:
  assumes "eq_frames \<le> frames"
  shows "revoke_nodes frames eq_frames match_id nodes to_revoke reg
     = (Inr (to_revoke @ map id_m (filter (dependant match_id) (concat (map matches nodes)))),
        map (\<lambda>node. node\<lparr>matches := filter (\<lambda>m. \<not> removable match_id m) (matches node)\<rparr>) nodes,
        if \<exists>m \<in> set (concat (map matches nodes)). removable match_id m
        then reg(match_id := None) else reg)"
proof (induction nodes arbitrary: to_revoke reg)
  case Nil
  then show ?case by simp
next
  case (Cons node nodes)
  show ?case
    by (simp add: revoke_scan_eq revoke_remove_eq [OF assms] Cons.IH) auto
qed

lemma revoke_step_eq:
  assumes "eq_frames \<le> frames"
  shows "revoke_step frames eq_frames match_id s
     = (Inr (map id_m (filter (dependant match_id) (all_matches s))),
        s\<lparr>consolidated := False,
          elements := map (\<lambda>node. node\<lparr>matches := filter (\<lambda>m. \<not> removable match_id m) (matches node)\<rparr>)
                        (elements s),
          match_by_id := (if \<exists>m \<in> set (all_matches s). removable match_id m
                          then (match_by_id s)(match_id := None) else match_by_id s)\<rparr>)"
  by (simp add: revoke_step_def revoke_nodes_eq [OF assms] all_matches_def)

lemma revoke_nodes_subset:
  "revoke_nodes frames eq_frames match_id nodes to_revoke reg = (r, nodes', reg') \<Longrightarrow>
     x \<in> set (concat (map matches nodes')) \<Longrightarrow> x \<in> set (concat (map matches nodes))"
proof (induction nodes arbitrary: to_revoke reg r nodes' reg')
  case Nil
  then show ?case by simp
next
  case (Cons node nodes)
  let ?tr = "to_revoke @ map id_m (filter (dependant match_id) (matches node))"
  obtain r1 reg1 ms1 where rem: "revoke_remove frames eq_frames (filter (removable match_id) (matches node))
      reg (matches node) = (r1, reg1, ms1)"
    by (metis prod_cases3)
  show ?case
  proof (cases r1)
    case (Inl err)
    with rem Cons.prems(1) have "nodes' = node\<lparr>matches := ms1\<rparr> # nodes"
      by (auto simp: revoke_scan_eq)
    with Cons.prems(2) have "x \<in> set ms1 \<or> x \<in> set (concat (map matches nodes))"
      by simp
    then show ?thesis
      using revoke_remove_subset [OF rem] by auto
  next
    case (Inr u)
    obtain r2 nodes2 reg2 where rest: "revoke_nodes frames eq_frames match_id nodes ?tr reg1 = (r2, nodes2, reg2)"
      by (metis prod_cases3)
    with Inr rem Cons.prems(1) have "nodes' = node\<lparr>matches := ms1\<rparr> # nodes2"
      by (auto simp: revoke_scan_eq)
    with Cons.prems(2) have "x \<in> set ms1 \<or> x \<in> set (concat (map matches nodes2))"
      by simp
    then show ?thesis
      using revoke_remove_subset [OF rem] Cons.IH [OF rest] by auto
  qed
qed

lemma revoke_nodes_keeps:
  "revoke_nodes frames eq_frames match_id nodes to_revoke reg = (r, nodes', reg') \<Longrightarrow>
     x \<in> set (concat (map matches nodes)) \<Longrightarrow> \<not> removable match_id x \<Longrightarrow>
     x \<in> set (concat (map matches nodes'))"
proof (induction nodes arbitrary: to_revoke reg r nodes' reg')
  case Nil
  then show ?case by simp
next
  case (Cons node nodes)
  let ?tr = "to_revoke @ map id_m (filter (dependant match_id) (matches node))"
  obtain r1 reg1 ms1 where rem: "revoke_remove frames eq_frames (filter (removable match_id) (matches node))
      reg (matches node) = (r1, reg1, ms1)"
    by (metis prod_cases3)
  have here: "x \<in> set ms1" if "x \<in> set (matches node)"
    using rem that by (rule revoke_remove_keeps) (simp add: Cons.prems(3))
  show ?case
  proof (cases r1)
    case (Inl err)
    with rem Cons.prems(1) have "nodes' = node\<lparr>matches := ms1\<rparr> # nodes"
      by (auto simp: revoke_scan_eq)
    with Cons.prems(2) here show ?thesis
      by auto
  next
    case (Inr u)
    obtain r2 nodes2 reg2 where rest: "revoke_nodes frames eq_frames match_id nodes ?tr reg1 = (r2, nodes2, reg2)"
      by (metis prod_cases3)
    with Inr rem Cons.prems(1) have "nodes' = node\<lparr>matches := ms1\<rparr> # nodes2"
      by (auto simp: revoke_scan_eq)
    with Cons.prems(2) here Cons.IH [OF rest _ Cons.prems(3)] show ?thesis
      by auto
  qed
qed

lemma revoke_nodes_result:
  "revoke_nodes frames eq_frames match_id nodes to_revoke reg = (r, nodes', reg') \<Longrightarrow>
     (case r of
        Inl err \<Rightarrow> err = RecursionError
      | Inr tr \<Rightarrow> tr = to_revoke @ map id_m (filter (dependant match_id) (concat (map matches nodes))))"
proof (induction nodes arbitrary: to_revoke reg r nodes' reg')
  case Nil
  then show ?case by auto
next
  case (Cons node nodes)
  let ?tr = "to_revoke @ map id_m (filter (dependant match_id) (matches node))"
  obtain r1 reg1 ms1 where rem: "revoke_remove frames eq_frames (filter (removable match_id) (matches node))
      reg (matches node) = (r1, reg1, ms1)"
    by (metis prod_cases3)
  show ?case
  proof (cases r1)
    case (Inl err)
    with rem have "err = RecursionError"
      by (auto dest: revoke_remove_error)
    with Inl rem Cons.prems(1) show ?thesis
      by (auto simp: revoke_scan_eq)
  next
    case (Inr u)
    obtain r2 nodes2 reg2 where rest: "revoke_nodes frames eq_frames match_id nodes ?tr reg1 = (r2, nodes2, reg2)"
      by (metis prod_cases3)
    with Inr rem Cons.prems(1) have "r = r2"
      by (auto simp: revoke_scan_eq)
    with Cons.IH [OF rest] show ?thesis
      by (simp split: sum.splits)
  qed
qed

lemma revoke_step_keeps:
  assumes "revoke_step frames eq_frames match_id s = (r, s')"
  shows "set (all_matches s') \<subseteq> set (all_matches s)"
    and "m \<in> set (all_matches s) \<Longrightarrow> \<not> removable match_id m \<Longrightarrow> m \<in> set (all_matches s')"
    and "r = Inl err \<Longrightarrow> err = RecursionError"
    and "r = Inr tr \<Longrightarrow> tr = map id_m (filter (dependant match_id) (all_matches s))"
proof -
  obtain nodes' reg' where n: "revoke_nodes frames eq_frames match_id (elements s) [] (match_by_id s)
      = (r, nodes', reg')"
    and s': "s' = s\<lparr>consolidated := False, elements := nodes', match_by_id := reg'\<rparr>"
    using assms by (auto simp: revoke_step_def split: prod.splits)
  have am: "all_matches s' = concat (map matches nodes')" "all_matches s = concat (map matches (elements s))"
    by (simp_all add: s' all_matches_def)
  show "set (all_matches s') \<subseteq> set (all_matches s)"
    unfolding am using revoke_nodes_subset [OF n] by blast
  show "m \<in> set (all_matches s) \<Longrightarrow> \<not> removable match_id m \<Longrightarrow> m \<in> set (all_matches s')"
    unfolding am by (rule revoke_nodes_keeps [OF n])
  show "r = Inl err \<Longrightarrow> err = RecursionError"
    using revoke_nodes_result [OF n] by simp
  show "r = Inr tr \<Longrightarrow> tr = map id_m (filter (dependant match_id) (all_matches s))"
    unfolding am using revoke_nodes_result [OF n] by simp
qed

lemma all_matches_without:
  "all_matches (without_ids K s) = filter (\<lambda>m. id_m m \<notin> K) (all_matches s)"
  by (simp add: all_matches_def without_ids_def filter_concat comp_def)

lemma get_all_match_ids_without:
  "get_all_match_ids (without_ids K s) = get_all_match_ids s - K"
  by (auto simp: get_all_match_ids_eq all_matches_without)

lemma without_ids_consolidated:
  "without_ids K (s\<lparr>consolidated := b\<rparr>) = (without_ids K s)\<lparr>consolidated := b\<rparr>"
  by (simp add: without_ids_def cong: if_cong)

lemma without_ids_fields [simp]:
  "consolidated (without_ids K s) = consolidated s"
  "value_s (without_ids K s) = value_s s"
  "extractions_s (without_ids K s) = extractions_s s"
  by (simp_all add: without_ids_def)

lemma without_ids_empty: "without_ids {} s = s"
  by (simp add: without_ids_def map_idI)

lemma without_ids_compose:
  "without_ids K (without_ids J s) = without_ids (J \<union> K) s"
proof -
  have "match_by_id (without_ids K (without_ids J s)) = match_by_id (without_ids (J \<union> K) s)"
    by (rule ext) (auto simp: without_ids_def [of K] get_all_match_ids_without, auto simp: without_ids_def)
  moreover have "elements (without_ids K (without_ids J s)) = elements (without_ids (J \<union> K) s)"
    by (auto simp: without_ids_def comp_def intro!: filter_cong)
  ultimately show ?thesis
    by (simp add: without_ids_def)
qed

lemma no_self_dependency_without:
  "no_self_dependency s \<Longrightarrow> no_self_dependency (without_ids K s)"
  by (simp add: no_self_dependency_def all_matches_without)

lemma element_matches_in_all:
  "node \<in> set (elements s) \<Longrightarrow> m \<in> set (matches node) \<Longrightarrow> m \<in> set (all_matches s)"
  by (auto simp: all_matches_def)

lemma revoke_step_nsd:
  assumes "no_self_dependency s" and "eq_frames \<le> frames"
  shows "revoke_step frames eq_frames x s
     = (Inr (map id_m (filter (dependant x) (all_matches s))),
        (without_ids {x} s)\<lparr>consolidated := False\<rparr>)"
proof -
  have rem: "removable x m \<longleftrightarrow> id_m m = x" if "m \<in> set (all_matches s)" for m
    using assms(1) that by (auto simp: removable_def no_self_dependency_def)
  have "map (\<lambda>node. node\<lparr>matches := filter (\<lambda>m. \<not> removable x m) (matches node)\<rparr>) (elements s)
      = map (\<lambda>node. node\<lparr>matches := filter (\<lambda>m. id_m m \<notin> {x}) (matches node)\<rparr>) (elements s)"
  proof (rule map_cong [OF refl])
    fix node
    assume node: "node \<in> set (elements s)"
    have "(\<not> removable x m) = (id_m m \<notin> {x})" if "m \<in> set (matches node)" for m
      using rem [OF element_matches_in_all [OF node that]] by simp
    then have "filter (\<lambda>m. \<not> removable x m) (matches node)
        = filter (\<lambda>m. id_m m \<notin> {x}) (matches node)"
      by (rule filter_cong [OF refl])
    then show "node\<lparr>matches := filter (\<lambda>m. \<not> removable x m) (matches node)\<rparr>
        = node\<lparr>matches := filter (\<lambda>m. id_m m \<notin> {x}) (matches node)\<rparr>"
      by simp
  qed
  moreover have "(if \<exists>m \<in> set (all_matches s). removable x m
                  then (match_by_id s)(x := None) else match_by_id s)
      = (\<lambda>k. if k \<in> {x} \<and> k \<in> get_all_match_ids s then None else match_by_id s k)"
    by (rule ext) (auto simp: rem get_all_match_ids_eq)
  ultimately show ?thesis
    by (simp add: revoke_step_eq [OF assms(2)] without_ids_def)
qed

lemma cascade_ids_subset:
  assumes "set (all_matches s') \<subseteq> set (all_matches s)" and "I' \<subseteq> cascade_ids s I"
  shows "cascade_ids s' I' \<subseteq> cascade_ids s I"
proof
  fix x
  assume "x \<in> cascade_ids s' I'"
  then show "x \<in> cascade_ids s I"
    using assms by induction (auto intro: cascade_ids.step)
qed

lemma cascade_ids_consolidated [simp]: "cascade_ids (s\<lparr>consolidated := b\<rparr>) I = cascade_ids s I"
  by (rule equalityI; rule cascade_ids_subset) (auto intro: cascade_ids.base)

lemma cascade_ids_empty: "cascade_ids s {} = {}"
proof -
  have "x \<in> cascade_ids s {} \<Longrightarrow> False" for x
    by (induction rule: cascade_ids.induct) auto
  then show ?thesis by auto
qed

lemma cascade_ids_single:
  "cascade_ids s {x}
     = insert x (cascade_ids (without_ids {x} s) (id_m ` {m \<in> set (all_matches s). dependant x m}))"
  (is "?L = insert x ?R")
proof (rule equalityI)
  show "?L \<subseteq> insert x ?R"
  proof
    fix y
    assume "y \<in> ?L"
    then show "y \<in> insert x ?R"
    proof induction
      case (base y)
      then show ?case by simp
    next
      case (step z m)
      show ?case
      proof (cases "id_m m = x")
        case True
        then show ?thesis by simp
      next
        case False
        with step have m1: "m \<in> set (all_matches (without_ids {x} s))"
          by (simp add: all_matches_without)
        from step.IH show ?thesis
        proof
          assume "z = x"
          with step have "id_m m \<in> id_m ` {m \<in> set (all_matches s). dependant x m}"
            by (auto simp: dependant_def)
          then show ?thesis
            by (auto intro: cascade_ids.base)
        next
          assume "z \<in> ?R"
          from cascade_ids.step [OF this m1] step show ?thesis
            by simp
        qed
      qed
    qed
  qed
next
  have "?R \<subseteq> ?L"
    by (rule cascade_ids_subset)
       (auto simp: all_matches_without dependant_def intro: cascade_ids.step cascade_ids.base)
  then show "insert x ?R \<subseteq> ?L"
    by (auto intro: cascade_ids.base)
qed

lemma cascade_ids_union:
  "cascade_ids s (J \<union> I)
     = cascade_ids s J \<union> cascade_ids (without_ids (cascade_ids s J) s) I"
  (is "?L = ?A \<union> ?B")
proof (rule equalityI)
  show "?L \<subseteq> ?A \<union> ?B"
  proof
    fix y
    assume "y \<in> ?L"
    then show "y \<in> ?A \<union> ?B"
    proof induction
      case (base y)
      then show ?case by (auto intro: cascade_ids.base)
    next
      case (step z m)
      show ?case
      proof (cases "id_m m \<in> ?A")
        case True
        then show ?thesis by simp
      next
        case False
        with step have m2: "m \<in> set (all_matches (without_ids (cascade_ids s J) s))"
          by (simp add: all_matches_without)
        from step.IH show ?thesis
        proof
          assume "z \<in> ?A"
          from cascade_ids.step [OF this step.hyps(2,3)] show ?thesis by simp
        next
          assume "z \<in> ?B"
          from cascade_ids.step [OF this m2 step.hyps(3)] show ?thesis by simp
        qed
      qed
    qed
  qed
next
  have "?A \<subseteq> ?L"
    by (rule cascade_ids_subset) (auto intro: cascade_ids.base)
  moreover have "?B \<subseteq> ?L"
    by (rule cascade_ids_subset) (auto simp: all_matches_without intro: cascade_ids.base)
  ultimately show "?A \<union> ?B \<subseteq> ?L"
    by simp
qed

section \<open>The cascade\<close>

lemma length_all_matches_without:
  "length (all_matches (without_ids K s)) \<le> length (all_matches s)"
  by (simp add: all_matches_without)

lemma length_all_matches_without_less:
  "x \<in> get_all_match_ids s \<Longrightarrow> x \<in> K \<Longrightarrow>
     length (all_matches (without_ids K s)) < length (all_matches s)"
  by (auto simp: all_matches_without get_all_match_ids_eq intro!: length_filter_less)

lemma stale_update: "\<not> consolidated s \<Longrightarrow> s\<lparr>consolidated := False\<rparr> = s"
  by simp

lemma settled_dependants:
  assumes "no_self_dependency s"
  shows "settled (without_ids {x} s) (map id_m (filter (dependant x) (all_matches s)))"
proof -
  have "id_m m \<in> get_all_match_ids (without_ids {x} s)"
    if "m \<in> set (all_matches s)" "dependant x m" for m
  proof -
    from assms that have "id_m m \<noteq> x"
      by (auto simp: no_self_dependency_def dependant_def)
    with that show ?thesis
      by (simp add: get_all_match_ids_without) (auto simp: get_all_match_ids_eq)
  qed
  then show ?thesis
    by (auto simp: settled_def)
qed

lemma settled_after:
  assumes "settled s ids"
  shows "settled (without_ids (cascade_ids s J) s) ids"
  unfolding settled_def
proof
  fix z
  assume z: "z \<in> set ids"
  let ?s2 = "without_ids (cascade_ids s J) s"
  show "z \<in> get_all_match_ids ?s2 \<or> (\<forall>m \<in> set (all_matches ?s2). \<not> dependant z m)"
  proof (cases "z \<in> cascade_ids s J")
    case True
    have "\<not> dependant z m" if "m \<in> set (all_matches ?s2)" for m
    proof
      assume "dependant z m"
      with that True have "id_m m \<in> cascade_ids s J"
        by (auto simp: all_matches_without dependant_def intro: cascade_ids.step)
      with that show False
        by (simp add: all_matches_without)
    qed
    then show ?thesis by simp
  next
    case False
    with assms z show ?thesis
      by (auto simp: settled_def get_all_match_ids_without all_matches_without)
  qed
qed

lemma revoke_all_inner:
  assumes IH: "\<And>s' ids' frames'. length (all_matches s') < n \<Longrightarrow>
      length (all_matches s') + eq_frames < frames' \<Longrightarrow> no_self_dependency s' \<Longrightarrow>
      \<not> consolidated s' \<Longrightarrow> settled s' ids' \<Longrightarrow>
      revoke_all frames' eq_frames ids' s' = (Inr (), without_ids (cascade_ids s' (set ids')) s')"
    and frames: "n + eq_frames < frames"
  shows "length (all_matches s) \<le> n \<Longrightarrow> no_self_dependency s \<Longrightarrow> \<not> consolidated s \<Longrightarrow>
     settled s ids \<Longrightarrow>
     revoke_all frames eq_frames ids s = (Inr (), without_ids (cascade_ids s (set ids)) s)"
proof (induction ids arbitrary: s)
  case Nil
  show ?case
    by (simp add: cascade_ids_empty without_ids_empty)
next
  case (Cons x xs)
  from frames obtain f where f: "frames = Suc f" and f_eq: "eq_frames \<le> f" and f_n: "n + eq_frames \<le> f"
    by (cases frames) auto
  let ?tr = "map id_m (filter (dependant x) (all_matches s))"
  let ?s1 = "without_ids {x} s"
  let ?K2 = "cascade_ids ?s1 (set ?tr)"
  have step: "revoke_step f eq_frames x s = (Inr ?tr, ?s1)"
    using Cons.prems f_eq by (simp add: revoke_step_nsd stale_update)
  have nsd1: "no_self_dependency ?s1" and stale1: "\<not> consolidated ?s1"
    using Cons.prems by (simp_all add: no_self_dependency_without)
  have first: "revoke_all f eq_frames ?tr ?s1 = (Inr (), without_ids ?K2 ?s1)"
  proof (cases "x \<in> get_all_match_ids s")
    case True
    then have less: "length (all_matches ?s1) < n"
      using length_all_matches_without_less [of x s "{x}"] Cons.prems(1) by simp
    then have "length (all_matches ?s1) + eq_frames < f"
      using f_n by simp
    with less show ?thesis
      using nsd1 stale1 settled_dependants [OF Cons.prems(2)] by (rule IH)
  next
    case False
    with Cons.prems(4) have "?tr = []"
      by (auto simp: settled_def filter_empty_conv)
    then show ?thesis
      by (simp add: cascade_ids_empty without_ids_empty)
  qed
  have single: "cascade_ids s {x} = insert x ?K2"
    by (simp add: cascade_ids_single [of s x])
  let ?s2 = "without_ids (cascade_ids s {x}) s"
  have s2: "without_ids ?K2 ?s1 = ?s2"
    by (simp add: without_ids_compose single)
  have one: "revoke_match frames eq_frames x True s = (Inr (), ?s2)"
    by (simp only: f revoke_match.simps step prod.case sum.case if_True first s2)
  have "settled s xs"
    using Cons.prems(4) by (simp add: settled_def)
  then have "settled ?s2 xs"
    by (rule settled_after)
  moreover have "length (all_matches ?s2) \<le> n"
    using length_all_matches_without [of "cascade_ids s {x}" s] Cons.prems(1) by simp
  moreover have "no_self_dependency ?s2" "\<not> consolidated ?s2"
    using Cons.prems by (simp_all add: no_self_dependency_without)
  ultimately have second:
    "revoke_all frames eq_frames xs ?s2 = (Inr (), without_ids (cascade_ids ?s2 (set xs)) ?s2)"
    by (intro Cons.IH)
  have all: "cascade_ids s (set (x # xs)) = cascade_ids s {x} \<union> cascade_ids ?s2 (set xs)"
    using cascade_ids_union [of s "{x}" "set xs"] by simp
  have "revoke_all frames eq_frames (x # xs) s = revoke_all frames eq_frames xs ?s2"
    by (simp only: revoke_all.simps one prod.case sum.case)
  also have "\<dots> = (Inr (), without_ids (cascade_ids ?s2 (set xs)) ?s2)"
    by (rule second)
  also have "without_ids (cascade_ids ?s2 (set xs)) ?s2 = without_ids (cascade_ids s (set (x # xs))) s"
    by (simp only: without_ids_compose all)
  finally show ?case .
qed

lemma revoke_all_eq:
  "no_self_dependency s \<Longrightarrow> \<not> consolidated s \<Longrightarrow> settled s ids \<Longrightarrow>
     length (all_matches s) + eq_frames < frames \<Longrightarrow>
     revoke_all frames eq_frames ids s = (Inr (), without_ids (cascade_ids s (set ids)) s)"
proof (induction "length (all_matches s)" arbitrary: s ids frames rule: less_induct)
  case less
  show ?case
    by (rule revoke_all_inner [where n = "length (all_matches s)"])
       (use less in auto)
qed

lemma settled_consolidated [simp]: "settled (s\<lparr>consolidated := b\<rparr>) ids = settled s ids"
  by (simp add: settled_def)

lemma no_self_dependency_consolidated [simp]:
  "no_self_dependency (s\<lparr>consolidated := b\<rparr>) = no_self_dependency s"
  by (simp add: no_self_dependency_def)

lemma revoke_match_cascade_eq:
  assumes "no_self_dependency s" and "length (all_matches s) + eq_frames + 2 \<le> frames"
  shows "revoke_match frames eq_frames x True s
     = (Inr (), (without_ids (cascade_ids s {x}) s)\<lparr>consolidated := False\<rparr>)"
proof -
  from assms(2) obtain f where f: "frames = Suc f" and f_eq: "eq_frames \<le> f"
      and f_n: "length (all_matches s) + eq_frames < f"
    by (cases frames) auto
  let ?tr = "map id_m (filter (dependant x) (all_matches s))"
  let ?s1 = "(without_ids {x} s)\<lparr>consolidated := False\<rparr>"
  let ?K2 = "cascade_ids (without_ids {x} s) (set ?tr)"
  have step: "revoke_step f eq_frames x s = (Inr ?tr, ?s1)"
    using assms(1) f_eq by (simp add: revoke_step_nsd)
  have "length (all_matches ?s1) + eq_frames < f"
    using length_all_matches_without [of "{x}" s] f_n by simp
  then have "revoke_all f eq_frames ?tr ?s1 = (Inr (), without_ids (cascade_ids ?s1 (set ?tr)) ?s1)"
    using settled_dependants [OF assms(1), of x] assms(1)
    by (intro revoke_all_eq) (simp_all add: no_self_dependency_without)
  also have "without_ids (cascade_ids ?s1 (set ?tr)) ?s1
      = (without_ids ?K2 (without_ids {x} s))\<lparr>consolidated := False\<rparr>"
    by (simp only: cascade_ids_consolidated without_ids_consolidated)
  also have "without_ids ?K2 (without_ids {x} s) = without_ids (insert x ?K2) s"
    by (simp add: without_ids_compose)
  also have "insert x ?K2 = cascade_ids s {x}"
    by (simp add: cascade_ids_single [of s x])
  finally show ?thesis
    by (simp add: f step)
qed

lemma revoke_match_plain_eq:
  assumes "no_self_dependency s" and "eq_frames < frames"
  shows "revoke_match frames eq_frames x False s
     = (Inr (), (without_ids {x} s)\<lparr>consolidated := False\<rparr>)"
proof -
  from assms(2) obtain f where f: "frames = Suc f" and f_eq: "eq_frames \<le> f"
    by (cases frames) auto
  show ?thesis
    using assms(1) f_eq by (simp add: f revoke_step_nsd)
qed

text \<open>
  A stored match that depends on its own id is never removable, so no call removes it;
  and a cascade whose work list contains its id does not return.
\<close>

lemma revoke_all_self_dependent:
  assumes M: "\<And>x s r s'. revoke_match frames eq_frames x True s = (r, s') \<Longrightarrow>
      (\<forall>m \<in> set (all_matches s). id_m m \<in> set (depends_on_matches m) \<longrightarrow> m \<in> set (all_matches s'))
      \<and> (\<forall>err. r = Inl err \<longrightarrow> err = RecursionError)
      \<and> ((\<exists>m \<in> set (all_matches s). id_m m \<in> set (depends_on_matches m) \<and> id_m m = x)
            \<longrightarrow> r = Inl RecursionError)"
  shows "revoke_all frames eq_frames ids s = (r, s') \<Longrightarrow>
      (\<forall>m \<in> set (all_matches s). id_m m \<in> set (depends_on_matches m) \<longrightarrow> m \<in> set (all_matches s'))
      \<and> (\<forall>err. r = Inl err \<longrightarrow> err = RecursionError)
      \<and> ((\<exists>m \<in> set (all_matches s). id_m m \<in> set (depends_on_matches m) \<and> id_m m \<in> set ids)
            \<longrightarrow> r = Inl RecursionError)"
proof (induction ids arbitrary: s r s')
  case Nil
  then show ?case by auto
next
  case (Cons x xs)
  obtain r1 s1 where one: "revoke_match frames eq_frames x True s = (r1, s1)"
    by (cases "revoke_match frames eq_frames x True s")
  note M1 = M [OF one]
  show ?case
  proof (cases r1)
    case (Inl err)
    with one Cons.prems have "r = r1" "s' = s1"
      by simp_all
    with M1 Inl show ?thesis
      by auto
  next
    case (Inr u)
    with one Cons.prems have rest: "revoke_all frames eq_frames xs s1 = (r, s')"
      by simp
    note R = Cons.IH [OF rest]
    have keep: "m \<in> set (all_matches s')"
      if "m \<in> set (all_matches s)" "id_m m \<in> set (depends_on_matches m)" for m
      using that M1 R by blast
    have err: "r = Inl RecursionError"
      if "m \<in> set (all_matches s)" "id_m m \<in> set (depends_on_matches m)" "id_m m \<in> set (x # xs)" for m
    proof (cases "id_m m = x")
      case True
      with that M1 have "r1 = Inl RecursionError"
        by blast
      with Inr show ?thesis by simp
    next
      case False
      with that have "id_m m \<in> set xs"
        by simp
      moreover from that M1 have "m \<in> set (all_matches s1)"
        by blast
      ultimately show ?thesis
        using R that(2) by blast
    qed
    from keep err R show ?thesis
      by blast
  qed
qed

lemma revoke_match_self_dependent:
  "revoke_match frames eq_frames x True s = (r, s') \<Longrightarrow>
      (\<forall>m \<in> set (all_matches s). id_m m \<in> set (depends_on_matches m) \<longrightarrow> m \<in> set (all_matches s'))
      \<and> (\<forall>err. r = Inl err \<longrightarrow> err = RecursionError)
      \<and> ((\<exists>m \<in> set (all_matches s). id_m m \<in> set (depends_on_matches m) \<and> id_m m = x)
            \<longrightarrow> r = Inl RecursionError)"
proof (induction frames arbitrary: x s r s')
  case 0
  then show ?case by auto
next
  case (Suc f)
  obtain r1 s1 where step: "revoke_step f eq_frames x s = (r1, s1)"
    by (cases "revoke_step f eq_frames x s")
  note K = revoke_step_keeps [OF step]
  have keep1: "m \<in> set (all_matches s1)"
    if "m \<in> set (all_matches s)" "id_m m \<in> set (depends_on_matches m)" for m
    using that by (intro K(2)) (auto simp: removable_def)
  show ?case
  proof (cases r1)
    case (Inl err)
    with step Suc.prems have "r = Inl err" "s' = s1"
      by simp_all
    with K(3) [OF Inl] keep1 show ?thesis
      by auto
  next
    case (Inr tr)
    with step Suc.prems have rest: "revoke_all f eq_frames tr s1 = (r, s')"
      by simp
    have R: "(\<forall>m \<in> set (all_matches s1). id_m m \<in> set (depends_on_matches m) \<longrightarrow> m \<in> set (all_matches s'))
      \<and> (\<forall>err. r = Inl err \<longrightarrow> err = RecursionError)
      \<and> ((\<exists>m \<in> set (all_matches s1). id_m m \<in> set (depends_on_matches m) \<and> id_m m \<in> set tr)
            \<longrightarrow> r = Inl RecursionError)"
      using rest by (rule revoke_all_self_dependent [rotated]) (rule Suc.IH)
    have tr: "tr = map id_m (filter (dependant x) (all_matches s))"
      by (rule K(4) [OF Inr])
    have keep: "m \<in> set (all_matches s')"
      if "m \<in> set (all_matches s)" "id_m m \<in> set (depends_on_matches m)" for m
      using that keep1 R by blast
    have err: "r = Inl RecursionError"
      if "m \<in> set (all_matches s)" "id_m m \<in> set (depends_on_matches m)" "id_m m = x" for m
    proof -
      from that have "id_m m \<in> set tr"
        by (auto simp: tr dependant_def)
      with that keep1 R show ?thesis
        by blast
    qed
    from keep err R show ?thesis
      by blast
  qed
qed

lemma cascade_ids_stored:
  assumes "I \<subseteq> get_all_match_ids s"
  shows "cascade_ids s I \<subseteq> get_all_match_ids s"
proof
  fix x
  assume "x \<in> cascade_ids s I"
  then show "x \<in> get_all_match_ids s"
    using assms by induction (auto simp: get_all_match_ids_eq)
qed

lemma registry_without:
  "k \<in> K \<Longrightarrow> k \<in> get_all_match_ids s \<Longrightarrow> match_by_id (without_ids K s) k = None"
  "k \<notin> K \<Longrightarrow> match_by_id (without_ids K s) k = match_by_id s k"
  by (simp_all add: without_ids_def)

lemma seq_dup_reachable: "reachable seq_dup"
proof -
  have "reachable seq_a"
    unfolding seq_a_def by (rule reachable.init)
  then have "reachable (snd (add_match dup1 seq_a))"
    by (rule reachable.add [where m = dup1 and r = "fst (add_match dup1 seq_a)"]) simp
  then show ?thesis
    unfolding seq_dup_def
    by (rule reachable.add
          [where m = dup2 and r = "fst (add_match dup2 (snd (add_match dup1 seq_a)))"]) simp
qed

text \<open>
  Where no stored match depends on its own id and the stack suffices, the cascade
  returns.
\<close>

lemma revoke_match_without_self_dependency:
  assumes nsd: "no_self_dependency s"
    and a: "a \<in> set (all_matches s)" and b: "b \<in> set (all_matches s)"
    and dep: "id_m a \<in> set (depends_on_matches b)"
    and frames: "length (all_matches s) + eq_frames + 2 \<le> frames"
  shows "(\<exists>s'. revoke_match frames eq_frames (id_m a) True s = (Inr (), s')
            \<and> all_matches s' = filter (\<lambda>m. id_m m \<notin> cascade_ids s {id_m a}) (all_matches s)
            \<and> id_m a \<in> cascade_ids s {id_m a} \<and> id_m b \<in> cascade_ids s {id_m a}
            \<and> (\<forall>x \<in> cascade_ids s {id_m a}. x \<notin> get_all_match_ids s' \<and> match_by_id s' x = None)
            \<and> (\<forall>k. k \<notin> cascade_ids s {id_m a} \<longrightarrow> match_by_id s' k = match_by_id s k)
            \<and> (\<forall>m \<in> set (all_matches s'). set (depends_on_matches m) \<inter> cascade_ids s {id_m a} = {}))
     \<and> (\<exists>s''. revoke_match frames eq_frames (id_m a) False s = (Inr (), s'')
            \<and> all_matches s'' = filter (\<lambda>m. id_m m \<noteq> id_m a) (all_matches s)
            \<and> b \<in> set (all_matches s'')
            \<and> id_m a \<notin> get_all_match_ids s'' \<and> match_by_id s'' (id_m a) = None
            \<and> (\<forall>k. k \<noteq> id_m a \<longrightarrow> match_by_id s'' k = match_by_id s k))"
proof
  let ?K = "cascade_ids s {id_m a}"
  let ?s' = "(without_ids ?K s)\<lparr>consolidated := False\<rparr>"
  have stored: "?K \<subseteq> get_all_match_ids s"
    using a by (intro cascade_ids_stored) (simp add: get_all_match_ids_eq)
  have ida: "id_m a \<in> ?K"
    by (simp add: cascade_ids.base)
  from cascade_ids.step [OF ida b dep] have idb: "id_m b \<in> ?K" .
  have "x \<notin> get_all_match_ids ?s' \<and> match_by_id ?s' x = None" if "x \<in> ?K" for x
    using that stored by (auto simp: get_all_match_ids_without registry_without)
  moreover have "set (depends_on_matches m) \<inter> ?K = {}" if "m \<in> set (all_matches ?s')" for m
  proof (rule ccontr)
    assume "set (depends_on_matches m) \<inter> ?K \<noteq> {}"
    then obtain z where "z \<in> ?K" "z \<in> set (depends_on_matches m)"
      by auto
    with that have "id_m m \<in> ?K"
      by (auto simp: all_matches_without intro: cascade_ids.step)
    with that show False
      by (simp add: all_matches_without)
  qed
  ultimately show "\<exists>s'. revoke_match frames eq_frames (id_m a) True s = (Inr (), s')
            \<and> all_matches s' = filter (\<lambda>m. id_m m \<notin> ?K) (all_matches s)
            \<and> id_m a \<in> ?K \<and> id_m b \<in> ?K
            \<and> (\<forall>x \<in> ?K. x \<notin> get_all_match_ids s' \<and> match_by_id s' x = None)
            \<and> (\<forall>k. k \<notin> ?K \<longrightarrow> match_by_id s' k = match_by_id s k)
            \<and> (\<forall>m \<in> set (all_matches s'). set (depends_on_matches m) \<inter> ?K = {})"
    using revoke_match_cascade_eq [OF nsd frames, of "id_m a"] ida idb
    by (intro exI [of _ ?s']) (simp add: all_matches_without registry_without)
next
  let ?s'' = "(without_ids {id_m a} s)\<lparr>consolidated := False\<rparr>"
  from frames have fr: "eq_frames < frames"
    by simp
  from nsd b dep have "id_m b \<noteq> id_m a"
    by (auto simp: no_self_dependency_def)
  with b have "b \<in> set (all_matches ?s'')"
    by (simp add: all_matches_without)
  moreover have "id_m a \<in> get_all_match_ids s"
    using a by (simp add: get_all_match_ids_eq)
  then have "id_m a \<notin> get_all_match_ids ?s''" "match_by_id ?s'' (id_m a) = None"
    by (simp_all add: get_all_match_ids_without registry_without)
  ultimately show "\<exists>s''. revoke_match frames eq_frames (id_m a) False s = (Inr (), s'')
            \<and> all_matches s'' = filter (\<lambda>m. id_m m \<noteq> id_m a) (all_matches s)
            \<and> b \<in> set (all_matches s'')
            \<and> id_m a \<notin> get_all_match_ids s'' \<and> match_by_id s'' (id_m a) = None
            \<and> (\<forall>k. k \<noteq> id_m a \<longrightarrow> match_by_id s'' k = match_by_id s k)"
    using revoke_match_plain_eq [OF nsd fr, of "id_m a"]
    by (intro exI [of _ ?s'']) (simp add: all_matches_without registry_without)
qed

text \<open>
  A cascade that runs out of stack stops in the middle of a removal: with two frames
  left, the cascading revocation of \<open>A\<close> in \<open>seq_dep\<close> removes \<open>A\<close>, pops the key
  \<open>B\<close> and raises in the comparison that the removal of \<open>B\<close> needs. \<open>B\<close> is
  still stored, and is no longer registered.
\<close>

lemma revoke_match_stack_exhausted:
  "no_self_dependency seq_dep
   \<and> stored_ids seq_dep = [ [''c'', ''A'', ''B''] ]
   \<and> fst (revoke_match 2 1 ''A'' True seq_dep) = Inl RecursionError
   \<and> stored_ids (snd (revoke_match 2 1 ''A'' True seq_dep)) = [ [''c'', ''B''] ]
   \<and> match_by_id (snd (revoke_match 2 1 ''A'' True seq_dep)) ''B'' = None"
  by code_simp

text \<open>
  C2. The cascading revocation of a match is to remove it and every match that depends
  on it. In \<open>seq_dup\<close>, which two calls of \<open>add_match\<close> build from the sequence of a
  text, \<open>dup1\<close> and \<open>dup2\<close> are stored and \<open>dup2\<close> depends on the id of \<open>dup1\<close>,
  which is also its own id. The scan puts \<open>dup2\<close> on \<open>to_revoke\<close> and, because of
  the \<^verbatim>\<open>elif\<close>, never on \<open>to_remove\<close>; the cascade then revokes the same id again at
  every level. Whatever the stack, the cascading revocation of that id ends in
  RecursionError, and \<open>dup2\<close> is still stored afterwards.
\<close>

theorem revoke_match_cascade_diverges:
  "dup1 \<in> set (all_matches seq_dup) \<and> dup2 \<in> set (all_matches seq_dup)
   \<and> id_m dup1 \<in> set (depends_on_matches dup2)
   \<and> fst (revoke_match frames eq_frames (id_m dup1) True seq_dup) = Inl RecursionError
   \<and> dup2 \<in> set (all_matches (snd (revoke_match frames eq_frames (id_m dup1) True seq_dup)))
   \<and> id_m dup2 \<in> get_all_match_ids (snd (revoke_match frames eq_frames (id_m dup1) True seq_dup))"
proof -
  have 1: "dup1 \<in> set (all_matches seq_dup)"
    by code_simp
  have 2: "dup2 \<in> set (all_matches seq_dup)"
    by code_simp
  have 3: "id_m dup2 \<in> set (depends_on_matches dup2)" "id_m dup1 = id_m dup2"
    by (simp_all add: dup1_def dup2_def new_match_def)
  obtain r s' where run: "revoke_match frames eq_frames (id_m dup1) True seq_dup = (r, s')"
    by (cases "revoke_match frames eq_frames (id_m dup1) True seq_dup")
  note R = revoke_match_self_dependent [OF run]
  have "\<exists>m \<in> set (all_matches seq_dup). id_m m \<in> set (depends_on_matches m) \<and> id_m m = id_m dup1"
    using 2 3 by (intro bexI [of _ dup2]) simp_all
  with R have "r = Inl RecursionError"
    by simp
  moreover from R 2 3 have "dup2 \<in> set (all_matches s')"
    by blast
  ultimately show ?thesis
    using 1 2 3 run
    by (simp add: get_all_match_ids_eq)
qed

section \<open>Dropping matches and looking up dependants\<close>

lemma set_add_set: "set (set_add x xs) = insert x (set xs)"
  by (auto simp: set_add_def)

lemma drop_scan_Cons:
  "drop_scan concepts h idx (m # ms) acc
     = (if drop_selected concepts h idx m then drop_scan concepts h idx ms (set_add (id_m m) acc)
        else drop_scan concepts h idx ms acc)"
  by (cases h) (auto simp: drop_selected_def)

lemma drop_scan_set:
  "set (drop_scan concepts h idx ms acc)
     = set acc \<union> id_m ` {m \<in> set ms. drop_selected concepts h idx m}"
proof (induction ms arbitrary: acc)
  case Nil
  then show ?case by simp
next
  case (Cons m ms)
  show ?case
    unfolding drop_scan_Cons by (auto simp: Cons.IH set_add_set)
qed

lemma drop_collect_set:
  "set (drop_collect concepts h ies acc)
     = set acc \<union> {id_m m | i e m. (i, e) \<in> set ies \<and> m \<in> set (matches e)
                                   \<and> drop_selected concepts h i m}"
proof (induction ies arbitrary: acc)
  case Nil
  then show ?case by simp
next
  case (Cons ie ies)
  obtain i e where ie: "ie = (i, e)"
    by (cases ie)
  show ?case
    unfolding ie by (simp add: Cons.IH drop_scan_set) blast
qed

lemma revoke_step_matches:
  assumes "eq_frames \<le> frames"
  shows "fst (revoke_step frames eq_frames x s) = Inr (map id_m (filter (dependant x) (all_matches s)))"
    and "all_matches (snd (revoke_step frames eq_frames x s))
           = filter (\<lambda>m. \<not> removable x m) (all_matches s)"
  by (simp_all add: revoke_step_eq [OF assms] all_matches_def filter_concat comp_def)

lemma revoke_match_plain_step:
  assumes "eq_frames < frames"
  shows "revoke_match frames eq_frames x False s = (Inr (), snd (revoke_step (frames - 1) eq_frames x s))"
    and "all_matches (snd (revoke_step (frames - 1) eq_frames x s))
           = filter (\<lambda>m. \<not> removable x m) (all_matches s)"
proof -
  from assms obtain f where f: "frames = Suc f" and f_eq: "eq_frames \<le> f"
    by (cases frames) auto
  show "revoke_match frames eq_frames x False s = (Inr (), snd (revoke_step (frames - 1) eq_frames x s))"
    by (simp add: f revoke_step_eq [OF f_eq])
  show "all_matches (snd (revoke_step (frames - 1) eq_frames x s))
           = filter (\<lambda>m. \<not> removable x m) (all_matches s)"
    by (simp add: f revoke_step_matches [OF f_eq])
qed

lemma revoke_each_result:
  assumes "eq_frames < frames"
  shows "\<exists>s'. revoke_each frames eq_frames ids s = (Inr (), s')
     \<and> all_matches s' = filter (\<lambda>m. \<forall>x \<in> set ids. \<not> removable x m) (all_matches s)"
proof (induction ids arbitrary: s)
  case Nil
  then show ?case by simp
next
  case (Cons x xs)
  let ?s1 = "snd (revoke_step (frames - 1) eq_frames x s)"
  note one = revoke_match_plain_step [OF assms, of x s]
  from Cons [of ?s1] obtain s' where
    "revoke_each frames eq_frames xs ?s1 = (Inr (), s')"
    "all_matches s' = filter (\<lambda>m. \<forall>x \<in> set xs. \<not> removable x m) (all_matches ?s1)"
    by blast
  with one show ?case
    by (auto intro!: filter_cong)
qed

lemma drop_matches_result:
  assumes "eq_frames < frames"
  shows "\<exists>s'. drop_matches frames eq_frames concepts h cascade s = (Inr (), s')
     \<and> all_matches s'
        = filter (\<lambda>m. \<not> (\<exists>(i, e) \<in> set (enumerate 0 (elements s)). \<exists>m' \<in> set (matches e).
                             drop_selected concepts h i m' \<and> removable (id_m m') m))
            (all_matches s)"
proof -
  from revoke_each_result [OF assms, of "drop_collect concepts h (enumerate 0 (elements s)) []" s]
  obtain s' where s': "drop_matches frames eq_frames concepts h cascade s = (Inr (), s')"
    and am: "all_matches s' = filter (\<lambda>m. \<forall>x \<in> set (drop_collect concepts h (enumerate 0 (elements s)) []).
                 \<not> removable x m) (all_matches s)"
    by (auto simp: drop_matches_def)
  have "filter (\<lambda>m. \<forall>x \<in> set (drop_collect concepts h (enumerate 0 (elements s)) []).
                 \<not> removable x m) (all_matches s)
      = filter (\<lambda>m. \<not> (\<exists>(i, e) \<in> set (enumerate 0 (elements s)). \<exists>m' \<in> set (matches e).
                             drop_selected concepts h i m' \<and> removable (id_m m') m))
            (all_matches s)"
    by (rule filter_cong [OF refl]) (auto simp: drop_collect_set)
  with s' am show ?thesis
    by simp
qed

lemma drop_matches_cascade_ignored:
  "drop_matches frames eq_frames concepts h True s = drop_matches frames eq_frames concepts h False s"
  by (simp add: drop_matches_def)

text \<open>
  C8. \<open>drop_matches\<close> selects the matches as claimed (\<open>drop_matches_result\<close>) and
  is to cascade when and only when its flag is true. The code never does: in \<open>seq_dep\<close> position 0 holds the character, \<open>A\<close> of concept \<open>X\<close>
  and \<open>B\<close>, which depends on \<open>A\<close>. Dropping the concept \<open>X\<close> with the flag set
  removes \<open>A\<close> and keeps \<open>B\<close>, while the cascading revocation of \<open>A\<close> removes both.
\<close>

theorem drop_matches_never_cascades:
  "stored_ids seq_dep = [ [''c'', ''A'', ''B''] ]
   \<and> fst (drop_matches ex_frames ex_eq_frames [''X''] None True seq_dep) = Inr ()
   \<and> stored_ids (snd (drop_matches ex_frames ex_eq_frames [''X''] None True seq_dep)) = [ [''c'', ''B''] ]
   \<and> fst (revoke_match ex_frames ex_eq_frames ''A'' True seq_dep) = Inr ()
   \<and> stored_ids (snd (revoke_match ex_frames ex_eq_frames ''A'' True seq_dep)) = [ [''c''] ]"
proof -
  have "stored_ids seq_dep = [ [''c'', ''A'', ''B''] ]"
    by code_simp
  moreover have "fst (drop_matches ex_frames ex_eq_frames [''X''] None True seq_dep) = Inr ()"
    by code_simp
  moreover have "stored_ids (snd (drop_matches ex_frames ex_eq_frames [''X''] None True seq_dep)) = [ [''c'', ''B''] ]"
    by code_simp
  moreover have "fst (revoke_match ex_frames ex_eq_frames ''A'' True seq_dep) = Inr ()"
    by code_simp
  moreover have "stored_ids (snd (revoke_match ex_frames ex_eq_frames ''A'' True seq_dep)) = [ [''c''] ]"
    by code_simp
  ultimately show ?thesis
    by simp
qed

lemma find_dependant_matches_set:
  "set (find_dependant_matches s match_id)
     = {id_m m | m. m \<in> set (all_matches s) \<and> match_id \<in> set (depends_on_matches m)}"
  by (auto simp: find_dependant_matches_def all_matches_def)

lemma find_dependant_matches_sorted:
  "sorted (find_dependant_matches s match_id) \<and> distinct (find_dependant_matches s match_id)"
  by (simp add: find_dependant_matches_def)

lemma get_dependant_scan_eq:
  "get_dependant_scan match_id ms deps
     = (if \<exists>m \<in> set ms. match_id \<in> set (depends_on_matches m) then Inl AttributeError
        else Inr deps)"
  by (induction ms) auto

lemma get_dependant_nodes_eq:
  "get_dependant_nodes match_id elems deps
     = (if \<exists>m \<in> set (concat (map matches elems)). match_id \<in> set (depends_on_matches m)
        then Inl AttributeError else Inr deps)"
  by (induction elems) (auto simp: get_dependant_scan_eq)

lemma get_dependant_matches_eq:
  "get_dependant_matches s match_id
     = (if \<exists>m \<in> set (all_matches s). match_id \<in> set (depends_on_matches m)
        then Inl AttributeError else Inr {})"
  by (simp add: get_dependant_matches_def get_dependant_nodes_eq all_matches_def)

text \<open>
  C9. Both lookups are to return the ids of the matches that depend on the given id.
  \<open>find_dependant_matches\<close> does (sorted, each id once, see the lemmas above);
  \<open>get_dependant_matches\<close> raises AttributeError as soon as some match depends on
  the id: in \<open>seq_dep\<close> the match \<open>B\<close> depends on \<open>A\<close>.
\<close>

theorem get_dependant_matches_raises:
  "find_dependant_matches seq_dep ''A'' = [''B'']
   \<and> get_dependant_matches seq_dep ''A'' = Inl AttributeError"
proof -
  have "find_dependant_matches seq_dep ''A'' = [''B'']"
    by code_simp
  moreover have "get_dependant_matches seq_dep ''A'' = Inl AttributeError"
    by code_simp
  ultimately show ?thesis
    by simp
qed

section \<open>Registry and positions\<close>

text \<open>
  \<open>revoke_match\<close> keeps the registry and the positions in agreement when no stored
  match depends on its own id and the stack suffices.
\<close>

lemma dom_registry_without:
  "dom (match_by_id (without_ids K s)) = dom (match_by_id s) - (K \<inter> get_all_match_ids s)"
  by (auto simp: without_ids_def split: if_splits)

lemma without_ids_consistent:
  "consistent s \<Longrightarrow> consistent ((without_ids K s)\<lparr>consolidated := b\<rparr>)"
  by (auto simp: consistent_def dom_registry_without get_all_match_ids_without)

lemma revoke_match_invariant:
  assumes "no_self_dependency s" and "consistent s"
    and "length (all_matches s) + eq_frames + 2 \<le> frames"
  shows "fst (revoke_match frames eq_frames x cascade s) = Inr ()
     \<and> no_self_dependency (snd (revoke_match frames eq_frames x cascade s))
     \<and> consistent (snd (revoke_match frames eq_frames x cascade s))"
proof (cases cascade)
  case True
  with revoke_match_cascade_eq [OF assms(1,3), of x] assms(1,2) show ?thesis
    by (simp add: without_ids_consistent no_self_dependency_without)
next
  case False
  from assms(3) have "eq_frames < frames"
    by simp
  with False revoke_match_plain_eq [OF assms(1), of eq_frames frames x] assms(1,2) show ?thesis
    by (simp add: without_ids_consistent no_self_dependency_without)
qed

lemma seq_dep_reachable: "reachable seq_dep"
proof -
  have "reachable seq_a"
    unfolding seq_a_def by (rule reachable.init)
  then have "reachable (snd (add_match base_match seq_a))"
    by (rule reachable.add [where m = base_match and r = "fst (add_match base_match seq_a)"]) simp
  then show ?thesis
    unfolding seq_dep_def
    by (rule reachable.add
          [where m = dep_match and r = "fst (add_match dep_match (snd (add_match base_match seq_a)))"]) simp
qed

text \<open>
  Without any self-dependency, a cascade that runs out of stack between the
  \<^verbatim>\<open>pop\<close> and the \<^verbatim>\<open>remove\<close> leaves a stored id that is not registered.
\<close>

lemma revoke_match_exhausted_registry:
  "no_self_dependency seq_dep \<and> consistent seq_dep
   \<and> reachable (snd (revoke_match 2 1 ''A'' True seq_dep))
   \<and> fst (revoke_match 2 1 ''A'' True seq_dep) = Inl RecursionError
   \<and> ''B'' \<in> get_all_match_ids (snd (revoke_match 2 1 ''A'' True seq_dep))
   \<and> ''B'' \<notin> dom (match_by_id (snd (revoke_match 2 1 ''A'' True seq_dep)))"
proof -
  have a: "no_self_dependency seq_a \<and> consistent seq_a"
    unfolding seq_a_def by (rule from_string_invariant)
  have "add_match base_match seq_a = (fst (add_match base_match seq_a), snd (add_match base_match seq_a))"
    by simp
  moreover have "id_m base_match \<notin> set (depends_on_matches base_match)"
    by (simp add: base_match_def new_match_def)
  ultimately have b: "no_self_dependency (snd (add_match base_match seq_a))
      \<and> consistent (snd (add_match base_match seq_a))"
    using a add_match_invariant [of base_match seq_a _ "snd (add_match base_match seq_a)"] by blast
  have "add_match dep_match (snd (add_match base_match seq_a))
      = (fst (add_match dep_match (snd (add_match base_match seq_a))), seq_dep)"
    by (simp add: seq_dep_def)
  moreover have "id_m dep_match \<notin> set (depends_on_matches dep_match)"
    by (simp add: dep_match_def new_match_def)
  ultimately have "no_self_dependency seq_dep \<and> consistent seq_dep"
    using b add_match_invariant [of dep_match "snd (add_match base_match seq_a)" _ seq_dep] by blast
  moreover have "reachable (snd (revoke_match 2 1 ''A'' True seq_dep))"
    using seq_dep_reachable
    by (rule reachable.revoke [where frames = 2 and eq_frames = 1 and match_id = "''A''"
          and cascade = True and r = "fst (revoke_match 2 1 ''A'' True seq_dep)"]) simp
  moreover have "fst (revoke_match 2 1 ''A'' True seq_dep) = Inl RecursionError"
    by code_simp
  moreover have "''B'' \<in> get_all_match_ids (snd (revoke_match 2 1 ''A'' True seq_dep))"
    by code_simp
  moreover have "match_by_id (snd (revoke_match 2 1 ''A'' True seq_dep)) ''B'' = None"
    by code_simp
  ultimately show ?thesis
    by (auto simp: domIff)
qed

text \<open>
  C10. In every sequence that \<open>from_string\<close> builds and calls of \<open>add_match\<close> and
  \<open>revoke_match\<close> evolve, the keys of the registry are to be the ids of the matches
  stored at the positions. \<open>seq_orphan\<close> comes from the sequence of a text by two
  calls of \<open>add_match\<close> and a non-cascading \<open>revoke_match\<close>, which pops the key
  \<open>x\<close> and, because of the \<^verbatim>\<open>elif\<close> of its scan, keeps the match of this id that
  depends on it: a match with the id \<open>x\<close> is stored at position 0, and the registry
  has no key \<open>x\<close>.
\<close>

theorem registry_loses_stored_id:
  "reachable seq_orphan
   \<and> ''x'' \<in> get_all_match_ids seq_orphan
   \<and> ''x'' \<notin> dom (match_by_id seq_orphan)
   \<and> dom (match_by_id seq_orphan) \<noteq> get_all_match_ids seq_orphan"
proof -
  have "revoke_match ex_frames ex_eq_frames ''x'' False seq_dup
      = (fst (revoke_match ex_frames ex_eq_frames ''x'' False seq_dup), seq_orphan)"
    by (simp add: seq_orphan_def)
  with seq_dup_reachable have "reachable seq_orphan"
    by (rule reachable.revoke)
  moreover have "''x'' \<in> get_all_match_ids seq_orphan"
    by code_simp
  moreover have "match_by_id seq_orphan ''x'' = None"
    by code_simp
  ultimately show ?thesis
    by (auto simp: domIff)
qed

section \<open>The inside constraint in a pass\<close>

lemma get_element_Inr:
  "get_element s i = Inr elem \<Longrightarrow> \<exists>j < length (elements s). elem = elements s ! j"
  by (auto simp: get_element_def split: option.splits dest: py_index_less)

lemma get_element_nat:
  "get_element s (int i) = Inr elem \<Longrightarrow> i < length (elements s) \<and> elem = elements s ! i"
  by (auto simp: get_element_def py_index_def split: option.splits if_splits)

lemma check_match_is_inside_True:
  assumes "check_match_is_inside ex s m c = Inr True"
  shows "\<exists>other \<in> set (all_matches s). has_concept_under ex c other
           \<and> start_idx other = start_idx m \<and> size_m other = size_m m"
proof -
  from assms obtain elem where e: "get_element s (start_idx m) = Inr elem"
    and ex: "\<exists>other \<in> set (matches elem). has_concept_under ex c other
           \<and> start_idx other = start_idx m \<and> size_m other = size_m m"
    by (auto simp: check_match_is_inside_def has_concept_under_def split: sum.splits)
  from get_element_Inr [OF e] obtain j where "j < length (elements s)" "elem = elements s ! j"
    by blast
  then have "set (matches elem) \<subseteq> set (all_matches s)"
    by (auto intro: nth_in_all_matches)
  with ex show ?thesis
    by blast
qed

lemma check_inside_start_idx_True:
  assumes "check_inside_start_idx ex s (int i) c = Inr True"
  shows "i < length (elements s)
         \<and> (\<exists>m \<in> set (matches (elements s ! i)). has_concept_under ex c m)"
  using assms
  by (auto simp: check_inside_start_idx_def has_concept_under_def split: sum.splits
      dest!: get_element_nat)

lemma submit_matches_trace:
  "submit_matches ex p ms s h tr = (r, s', tr') \<Longrightarrow> \<forall>ev \<in> set tr. event_ok ex ev \<Longrightarrow>
     \<forall>ev \<in> set tr'. event_ok ex ev"
proof (induction ms arbitrary: s h tr)
  case Nil
  then show ?case by simp
next
  case (Cons m ms)
  let ?c = "if truthy (inside p) then check_match_is_inside ex s m (the (inside p)) else Inr True"
  show ?case
  proof (cases ?c)
    case (Inl e)
    with Cons.prems show ?thesis by simp
  next
    case (Inr allowed)
    show ?thesis
    proof (cases allowed)
      case False
      with Inr Cons.prems have "submit_matches ex p ms s h tr = (r, s', tr')"
        by simp
      from Cons.IH [OF this Cons.prems(2)] show ?thesis .
    next
      case True
      with Inr have ok: "event_ok ex (Submitted s m p)"
        by (auto dest: check_match_is_inside_True split: if_splits)
      obtain res s1 where add: "add_match m s = (res, s1)"
        by (cases "add_match m s")
      show ?thesis
      proof (cases res)
        case (Inl e)
        with \<open>?c = Inr allowed\<close> True add Cons.prems(1) have "tr' = tr @ [Submitted s m p]"
          by simp
        with Cons.prems(2) ok show ?thesis
          by (simp del: event_ok.simps)
      next
        case (Inr added)
        with \<open>?c = Inr allowed\<close> True add Cons.prems
        have "submit_matches ex p ms s1 (h \<or> added) (tr @ [Submitted s m p]) = (r, s', tr')"
          by simp
        from Cons.IH [OF this] Cons.prems(2) ok show ?thesis
          by (simp del: event_ok.simps)
      qed
    qed
  qed
qed

lemma apply_patterns_trace:
  "apply_patterns ex start ps s h tr = (r, s', tr') \<Longrightarrow> \<forall>ev \<in> set tr. event_ok ex ev \<Longrightarrow>
     \<forall>ev \<in> set tr'. event_ok ex ev"
proof (induction ps arbitrary: s h tr)
  case Nil
  then show ?case by simp
next
  case (Cons p ps)
  let ?c = "if truthy (inside p) then check_inside_start_idx ex s (int start) (the (inside p)) else Inr True"
  show ?case
  proof (cases ?c)
    case (Inl e)
    with Cons.prems show ?thesis by simp
  next
    case (Inr allowed)
    show ?thesis
    proof (cases allowed)
      case False
      with Inr Cons.prems have "apply_patterns ex start ps s h tr = (r, s', tr')"
        by simp
      from Cons.IH [OF this Cons.prems(2)] show ?thesis .
    next
      case True
      with Inr have ok: "event_ok ex (Invoked s start p)"
        by (auto dest: check_inside_start_idx_True split: if_splits)
      obtain res s1 tr1 where sub: "submit_matches ex p (match_p p s (MatchState (int start)) (hierarchy ex)) s h
          (tr @ [Invoked s start p]) = (res, s1, tr1)"
        by (metis prod_cases3)
      from submit_matches_trace [OF sub] Cons.prems(2) ok have tr1: "\<forall>ev \<in> set tr1. event_ok ex ev"
        by (simp del: event_ok.simps)
      show ?thesis
      proof (cases res)
        case (Inl e)
        with Inr True sub Cons.prems tr1 show ?thesis
          by auto
      next
        case (Inr h')
        with \<open>?c = Inr allowed\<close> True sub Cons.prems
        have "apply_patterns ex start ps s1 h' tr1 = (r, s', tr')"
          by simp
        from Cons.IH [OF this tr1] show ?thesis .
      qed
    qed
  qed
qed

lemma apply_positions_trace:
  "apply_positions ex idxs s h tr = (r, s', tr') \<Longrightarrow> \<forall>ev \<in> set tr. event_ok ex ev \<Longrightarrow>
     \<forall>ev \<in> set tr'. event_ok ex ev"
proof (induction idxs arbitrary: s h tr)
  case Nil
  then show ?case by simp
next
  case (Cons start rest)
  show ?case
  proof (cases "get_element s (int start)")
    case (Inl e)
    with Cons.prems show ?thesis by simp
  next
    case (Inr elem)
    show ?thesis
    proof (cases "disabled elem")
      case True
      with Inr Cons.prems have "apply_positions ex rest s h tr = (r, s', tr')"
        by simp
      from Cons.IH [OF this Cons.prems(2)] show ?thesis .
    next
      case False
      obtain res s1 tr1 where pat: "apply_patterns ex start (patterns ex) s h tr = (res, s1, tr1)"
        by (metis prod_cases3)
      from apply_patterns_trace [OF pat Cons.prems(2)] have tr1: "\<forall>ev \<in> set tr1. event_ok ex ev" .
      show ?thesis
      proof (cases res)
        case (Inl e)
        with \<open>get_element s (int start) = Inr elem\<close> False pat Cons.prems tr1 show ?thesis
          by auto
      next
        case (Inr h')
        with \<open>get_element s (int start) = Inr elem\<close> False pat Cons.prems
        have "apply_positions ex rest s1 h' tr1 = (r, s', tr')"
          by simp
        from Cons.IH [OF this tr1] show ?thesis .
      qed
    qed
  qed
qed

text \<open>The trace of a pass is faithful, and the pass changes the sequence by its submissions only.\<close>

lemma replay_append: "replay (xs @ ys) s = replay ys (replay xs s)"
  by (induction xs s rule: replay.induct) simp_all

lemma faithful_append: "faithful (xs @ ys) s = (faithful xs s \<and> faithful ys (replay xs s))"
  by (induction xs s rule: faithful.induct) simp_all

lemma submit_matches_replay:
  "submit_matches ex p ms s h tr = (r, s', tr') \<Longrightarrow>
     \<exists>evs. tr' = tr @ evs \<and> faithful evs s \<and> replay evs s = s'"
proof (induction ms arbitrary: s h tr)
  case Nil
  then show ?case by simp
next
  case (Cons m ms)
  let ?c = "if truthy (inside p) then check_match_is_inside ex s m (the (inside p)) else Inr True"
  show ?case
  proof (cases ?c)
    case (Inl e)
    with Cons.prems show ?thesis by simp
  next
    case (Inr allowed)
    show ?thesis
    proof (cases allowed)
      case False
      with Inr Cons.prems have "submit_matches ex p ms s h tr = (r, s', tr')"
        by simp
      from Cons.IH [OF this] show ?thesis .
    next
      case True
      obtain res s1 where add: "add_match m s = (res, s1)"
        by (cases "add_match m s")
      show ?thesis
      proof (cases res)
        case (Inl e)
        with \<open>?c = Inr allowed\<close> True add Cons.prems
        have "tr' = tr @ [Submitted s m p]" "s' = s1"
          by simp_all
        with add show ?thesis
          by simp
      next
        case (Inr added)
        with \<open>?c = Inr allowed\<close> True add Cons.prems
        have "submit_matches ex p ms s1 (h \<or> added) (tr @ [Submitted s m p]) = (r, s', tr')"
          by simp
        from Cons.IH [OF this] obtain evs where
          "tr' = (tr @ [Submitted s m p]) @ evs" "faithful evs s1" "replay evs s1 = s'"
          by blast
        with add have "tr' = tr @ (Submitted s m p # evs)
            \<and> faithful (Submitted s m p # evs) s \<and> replay (Submitted s m p # evs) s = s'"
          by simp
        then show ?thesis
          by blast
      qed
    qed
  qed
qed

lemma apply_patterns_replay:
  "apply_patterns ex start ps s h tr = (r, s', tr') \<Longrightarrow>
     \<exists>evs. tr' = tr @ evs \<and> faithful evs s \<and> replay evs s = s'"
proof (induction ps arbitrary: s h tr)
  case Nil
  then show ?case by simp
next
  case (Cons p ps)
  let ?c = "if truthy (inside p) then check_inside_start_idx ex s (int start) (the (inside p)) else Inr True"
  show ?case
  proof (cases ?c)
    case (Inl e)
    with Cons.prems show ?thesis by simp
  next
    case (Inr allowed)
    show ?thesis
    proof (cases allowed)
      case False
      with Inr Cons.prems have "apply_patterns ex start ps s h tr = (r, s', tr')"
        by simp
      from Cons.IH [OF this] show ?thesis .
    next
      case True
      obtain res s1 tr1 where sub: "submit_matches ex p (match_p p s (MatchState (int start)) (hierarchy ex)) s h
          (tr @ [Invoked s start p]) = (res, s1, tr1)"
        by (metis prod_cases3)
      from submit_matches_replay [OF sub] obtain evs1 where
        evs1: "tr1 = (tr @ [Invoked s start p]) @ evs1" "faithful evs1 s" "replay evs1 s = s1"
        by blast
      then have first: "tr1 = tr @ (Invoked s start p # evs1)"
        "faithful (Invoked s start p # evs1) s" "replay (Invoked s start p # evs1) s = s1"
        by simp_all
      show ?thesis
      proof (cases res)
        case (Inl e)
        with \<open>?c = Inr allowed\<close> True sub Cons.prems have "tr' = tr1" "s' = s1"
          by simp_all
        with first show ?thesis
          by blast
      next
        case (Inr h')
        with \<open>?c = Inr allowed\<close> True sub Cons.prems
        have "apply_patterns ex start ps s1 h' tr1 = (r, s', tr')"
          by simp
        from Cons.IH [OF this] obtain evs2 where
          "tr' = tr1 @ evs2" "faithful evs2 s1" "replay evs2 s1 = s'"
          by blast
        with first have "tr' = tr @ ((Invoked s start p # evs1) @ evs2)
            \<and> faithful ((Invoked s start p # evs1) @ evs2) s
            \<and> replay ((Invoked s start p # evs1) @ evs2) s = s'"
          by (simp only: faithful_append replay_append append_assoc simp_thms)
        then show ?thesis
          by blast
      qed
    qed
  qed
qed

lemma apply_positions_replay:
  "apply_positions ex idxs s h tr = (r, s', tr') \<Longrightarrow>
     \<exists>evs. tr' = tr @ evs \<and> faithful evs s \<and> replay evs s = s'"
proof (induction idxs arbitrary: s h tr)
  case Nil
  then show ?case by simp
next
  case (Cons start rest)
  show ?case
  proof (cases "get_element s (int start)")
    case (Inl e)
    with Cons.prems show ?thesis by simp
  next
    case (Inr elem)
    show ?thesis
    proof (cases "disabled elem")
      case True
      with Inr Cons.prems have "apply_positions ex rest s h tr = (r, s', tr')"
        by simp
      from Cons.IH [OF this] show ?thesis .
    next
      case False
      obtain res s1 tr1 where pat: "apply_patterns ex start (patterns ex) s h tr = (res, s1, tr1)"
        by (metis prod_cases3)
      from apply_patterns_replay [OF pat] obtain evs1 where
        first: "tr1 = tr @ evs1" "faithful evs1 s" "replay evs1 s = s1"
        by blast
      show ?thesis
      proof (cases res)
        case (Inl e)
        with \<open>get_element s (int start) = Inr elem\<close> False pat Cons.prems have "tr' = tr1" "s' = s1"
          by simp_all
        with first show ?thesis
          by blast
      next
        case (Inr h')
        with \<open>get_element s (int start) = Inr elem\<close> False pat Cons.prems
        have "apply_positions ex rest s1 h' tr1 = (r, s', tr')"
          by simp
        from Cons.IH [OF this] obtain evs2 where
          "tr' = tr1 @ evs2" "faithful evs2 s1" "replay evs2 s1 = s'"
          by blast
        with first have "tr' = tr @ (evs1 @ evs2) \<and> faithful (evs1 @ evs2) s
            \<and> replay (evs1 @ evs2) s = s'"
          by (simp only: faithful_append replay_append append_assoc simp_thms)
        then show ?thesis
          by blast
      qed
    qed
  qed
qed

lemma apply_once_replay:
  "apply_once ex s = (r, s', tr) \<Longrightarrow> faithful tr s \<and> replay tr s = s'"
  using apply_positions_replay [of ex "[0..<length (elements s)]" s False "[]" r s' tr]
  by (simp add: apply_once_def)

text \<open>
  C7. In a pass of \<open>apply_once\<close>, every call of a pattern's \<open>match\<close> and every
  call of \<open>add_match\<close> respects the inside constraint: a pattern that declares an
  inside concept is invoked at a position only when a match stored at that position has
  the concept or a concept with it among its ancestors, and a match that it produces is
  submitted only when a stored match with the same start index and the same size has
  the concept or such a descendant.
\<close>

theorem apply_once_inside_filter:
  "\<forall>ev \<in> set (snd (snd (apply_once ex s))). event_ok ex ev"
proof -
  obtain r s' tr where "apply_once ex s = (r, s', tr)"
    by (metis prod_cases3)
  then show ?thesis
    using apply_positions_trace [of ex "[0..<length (elements s)]" s False "[]" r s' tr]
    by (simp add: apply_once_def)
qed



theorem apply_once_inside_filter_witness:
  "truthy (inside inner_pattern)
   \<and> fst (apply_once ex_extractor seq_w1) = Inr True
   \<and> length (snd (snd (apply_once ex_extractor seq_w1))) = 2
   \<and> list_all (event_ok ex_extractor) (snd (snd (apply_once ex_extractor seq_w1)))
   \<and> fst (apply_once ex_extractor seq_a) = Inr False
   \<and> length (snd (snd (apply_once ex_extractor seq_a))) = 0"
proof -
  have "truthy (inside inner_pattern)"
    by (simp add: inner_pattern_def)
  moreover have "fst (apply_once ex_extractor seq_w1) = Inr True"
    by code_simp
  moreover have "length (snd (snd (apply_once ex_extractor seq_w1))) = 2"
    by code_simp
  moreover have "fst (apply_once ex_extractor seq_a) = Inr False"
    by code_simp
  moreover have "length (snd (snd (apply_once ex_extractor seq_a))) = 0"
    by code_simp
  ultimately show ?thesis
    using apply_once_inside_filter [of ex_extractor seq_w1] by (simp add: list_all_iff)
qed

end
